theory Spec2Isabelle
  imports Complex_Main "HOL-Library.Log_Nat"
begin

section \<open>The values of type double\<close>

text \<open>
  The calculator computes with the C++ type \<open>double\<close>.  A value is a finite binary64
  number (kept as the rational it denotes, \<open>Finite 0\<close> being \<open>+0.0\<close>), the negative
  zero, an infinity or a NaN.  The arithmetic is the one of IEEE 754 in the default
  rounding mode: the exact result, rounded to the nearest representable number, ties to
  the even mantissa.
\<close>

datatype double = Finite rat | NegZero | PosInf | NegInf | NaN

text \<open>\<open>ilog2 a\<close> is \<open>\<lfloor>log\<^sub>2 a\<rfloor>\<close> for a positive rational \<open>a\<close>.\<close>

definition ilog2 :: "rat \<Rightarrow> int" where
  "ilog2 a = (let (p, q) = quotient_of a;
                  d = int (floorlog 2 (nat p)) - int (floorlog 2 (nat q))
              in if power_int 2 d \<le> a then d else d - 1)"

definition round_half_even :: "rat \<Rightarrow> int" where
  "round_half_even q = (let f = \<lfloor>q\<rfloor>; r = q - of_int f
     in if r < 1 / 2 then f else if 1 / 2 < r then f + 1
        else if even f then f else f + 1)"

text \<open>
  Rounding of an exact result to binary64: 53 bits of mantissa, the smallest exponent
  of a unit in the last place is \<open>-1074\<close> (subnormal numbers), and a rounded magnitude
  of \<open>2^1024\<close> or more is an infinity.
\<close>

definition round_to_double :: "rat \<Rightarrow> double" where
  "round_to_double r =
     (if r = 0 then Finite 0
      else let a = \<bar>r\<bar>;
               e = max (ilog2 a - 52) (- 1074);
               n = round_half_even (a / power_int 2 e);
               v = of_int n * power_int 2 e
           in if 2 ^ 1024 \<le> v then (if 0 < r then PosInf else NegInf)
              else if n = 0 then (if 0 < r then Finite 0 else NegZero)
              else Finite (if 0 < r then v else - v))"

definition DBL_MAX :: rat where
  "DBL_MAX = 2 ^ 1024 - 2 ^ 971"

text \<open>The comparison \<open>x == 0.0\<close>: both zeros compare equal to \<open>0.0\<close>, a NaN does not.\<close>

fun is_zero :: "double \<Rightarrow> bool" where
  "is_zero (Finite a) = (a = 0)"
| "is_zero NegZero = True"
| "is_zero _ = False"

fun is_inf :: "double \<Rightarrow> bool" where
  "is_inf PosInf = True"
| "is_inf NegInf = True"
| "is_inf _ = False"

text \<open>The sign bit (of a value that is not a NaN).\<close>

fun signbit :: "double \<Rightarrow> bool" where
  "signbit (Finite a) = (a < 0)"
| "signbit NegZero = True"
| "signbit NegInf = True"
| "signbit _ = False"

text \<open>Unary minus.\<close>

fun fneg :: "double \<Rightarrow> double" where
  "fneg (Finite a) = (if a = 0 then NegZero else Finite (- a))"
| "fneg NegZero = Finite 0"
| "fneg PosInf = NegInf"
| "fneg NegInf = PosInf"
| "fneg NaN = NaN"

fun fadd :: "double \<Rightarrow> double \<Rightarrow> double" where
  "fadd NaN y = NaN"
| "fadd x NaN = NaN"
| "fadd PosInf NegInf = NaN"
| "fadd NegInf PosInf = NaN"
| "fadd PosInf y = PosInf"
| "fadd x PosInf = PosInf"
| "fadd NegInf y = NegInf"
| "fadd x NegInf = NegInf"
| "fadd NegZero NegZero = NegZero"
| "fadd NegZero (Finite b) = Finite b"
| "fadd (Finite a) NegZero = Finite a"
| "fadd (Finite a) (Finite b) = round_to_double (a + b)"

definition fsub :: "double \<Rightarrow> double \<Rightarrow> double" where
  "fsub x y = fadd x (fneg y)"

fun fmul :: "double \<Rightarrow> double \<Rightarrow> double" where
  "fmul NaN y = NaN"
| "fmul x NaN = NaN"
| "fmul (Finite a) (Finite b) =
     (if a = 0 \<or> b = 0 then (if (a < 0) \<noteq> (b < 0) then NegZero else Finite 0)
      else round_to_double (a * b))"
| "fmul x y =
     (if is_inf x \<or> is_inf y
      then (if is_zero x \<or> is_zero y then NaN
            else if signbit x \<noteq> signbit y then NegInf else PosInf)
      else if signbit x \<noteq> signbit y then NegZero else Finite 0)"

fun fdiv :: "double \<Rightarrow> double \<Rightarrow> double" where
  "fdiv NaN y = NaN"
| "fdiv x NaN = NaN"
| "fdiv x y =
     (if is_inf x then (if is_inf y then NaN
                        else if signbit x \<noteq> signbit y then NegInf else PosInf)
      else if is_inf y then (if signbit x \<noteq> signbit y then NegZero else Finite 0)
      else if is_zero y then (if is_zero x then NaN
                              else if signbit x \<noteq> signbit y then NegInf else PosInf)
      else if is_zero x then (if signbit x \<noteq> signbit y then NegZero else Finite 0)
      else (case (x, y) of (Finite a, Finite b) \<Rightarrow> round_to_double (a / b) | _ \<Rightarrow> NaN))"

text \<open>
  The library function \<open>fmod\<close>: the remainder \<open>x - n * y\<close> with \<open>n\<close> the quotient
  truncated towards zero.  It is exact and has the sign of \<open>x\<close>.
\<close>

definition trunc :: "rat \<Rightarrow> int" where
  "trunc q = (if 0 \<le> q then \<lfloor>q\<rfloor> else \<lceil>q\<rceil>)"

fun fmod :: "double \<Rightarrow> double \<Rightarrow> double" where
  "fmod NaN y = NaN"
| "fmod x NaN = NaN"
| "fmod x y =
     (if is_inf x \<or> is_zero y then NaN
      else if is_inf y \<or> is_zero x then x
      else (case (x, y) of
              (Finite a, Finite b) \<Rightarrow>
                (let r = a - b * of_int (trunc (a / b))
                 in if r = 0 then (if a < 0 then NegZero else Finite 0) else Finite r)
            | _ \<Rightarrow> NaN))"

section \<open>The character stream\<close>

text \<open>
  An \<open>istringstream\<close> over one line of input: the characters not yet read and the two
  state bits the scanner depends on.  The stream is good when neither bit is set; an
  extraction from a stream that is not good reads nothing and sets \<open>failbit\<close>.
\<close>

record istream =
  chars :: string
  eofbit :: bool
  failbit :: bool

definition istringstream :: "string \<Rightarrow> istream" where
  "istringstream input = \<lparr>chars = input, eofbit = False, failbit = False\<rparr>"

definition good :: "istream \<Rightarrow> bool" where
  "good s = (\<not> eofbit s \<and> \<not> failbit s)"

definition isspace :: "char \<Rightarrow> bool" where
  "isspace c = (c \<in> set [CHR '' '', CHR 0x09, CHR 0x0A, CHR 0x0B, CHR 0x0C, CHR 0x0D])"

definition isdigit :: "char \<Rightarrow> bool" where
  "isdigit c = (c \<in> set ''0123456789'')"

definition isalpha :: "char \<Rightarrow> bool" where
  "isalpha c = (c \<in> set ''abcdefghijklmnopqrstuvwxyzABCDEFGHIJKLMNOPQRSTUVWXYZ'')"

text \<open>
  \<open>inputStream >> ch\<close>: skips white space and reads one character.  At the end of the
  input it sets both bits and reads nothing.
\<close>

definition extract_char :: "istream \<Rightarrow> char option \<times> istream" where
  "extract_char s =
     (if \<not> good s then (None, s\<lparr>failbit := True\<rparr>)
      else case dropWhile isspace (chars s) of
             [] \<Rightarrow> (None, s\<lparr>chars := [], eofbit := True, failbit := True\<rparr>)
           | c # cs \<Rightarrow> (Some c, s\<lparr>chars := cs\<rparr>))"

text \<open>\<open>inputStream.get(ch)\<close>: reads one character, white space included.\<close>

definition get_char :: "istream \<Rightarrow> char option \<times> istream" where
  "get_char s =
     (if \<not> good s then (None, s\<lparr>failbit := True\<rparr>)
      else case chars s of
             [] \<Rightarrow> (None, s\<lparr>eofbit := True, failbit := True\<rparr>)
           | c # cs \<Rightarrow> (Some c, s\<lparr>chars := cs\<rparr>))"

text \<open>
  \<open>inputStream.putback(ch)\<close>, of the character that was read last: it clears \<open>eofbit\<close>
  first and then, on a stream that has not failed, steps back by one character.
\<close>

definition putback_char :: "char \<Rightarrow> istream \<Rightarrow> istream" where
  "putback_char c s =
     (if failbit s then s\<lparr>eofbit := False\<rparr> else s\<lparr>chars := c # chars s, eofbit := False\<rparr>)"

text \<open>
  \<open>inputStream >> val\<close> for a \<open>double\<close>.  The library accumulates the longest prefix of
  the form \<open>[sign] digits [. digits] [(e|E) [sign] digits]\<close>, where an exponent is only
  begun after a digit of the mantissa, and converts it as \<open>strtod\<close> does.  The
  conversion fails when the mantissa has no digit or a begun exponent has none: then the
  value is \<open>0.0\<close> and \<open>failbit\<close> is set.  An overflow gives the largest finite value and
  sets \<open>failbit\<close> too.  \<open>eofbit\<close> is set when the accumulation reached the end of input.
\<close>

definition digit_val :: "char \<Rightarrow> nat" where
  "digit_val c = of_char c - 48"

definition digits_val :: "string \<Rightarrow> nat" where
  "digits_val ds = foldl (\<lambda>n c. 10 * n + digit_val c) 0 ds"

definition is_sign :: "char \<Rightarrow> bool" where
  "is_sign c = (c = CHR ''+'' \<or> c = CHR ''-'')"

text \<open>An optional sign: whether it is a minus, and the rest.\<close>

fun scan_sign :: "string \<Rightarrow> bool \<times> bool \<times> string" where
  "scan_sign [] = (False, False, [])"
| "scan_sign (c # cs) = (if is_sign c then (True, c = CHR ''-'', cs) else (False, False, c # cs))"

record float_field =
  ff_negative :: bool
  ff_int_digits :: string
  ff_frac_digits :: string
  ff_has_exp :: bool
  ff_exp_negative :: bool
  ff_exp_digits :: string

definition scan_digits :: "string \<Rightarrow> string \<times> string" where
  "scan_digits cs = (takeWhile isdigit cs, dropWhile isdigit cs)"

definition scan_fraction :: "string \<Rightarrow> string \<times> string" where
  "scan_fraction cs =
     (case cs of
        c # r \<Rightarrow> if c = CHR ''.'' then scan_digits r else ([], cs)
      | [] \<Rightarrow> ([], cs))"

text \<open>
  The exponent, begun only when the mantissa has a digit: whether there is one, whether
  its sign is a minus, its digits, and the rest.
\<close>

definition scan_exponent :: "bool \<Rightarrow> string \<Rightarrow> bool \<times> bool \<times> string \<times> string" where
  "scan_exponent found_mantissa cs =
     (case cs of
        c # r \<Rightarrow>
          if (c = CHR ''e'' \<or> c = CHR ''E'') \<and> found_mantissa
          then (case scan_sign r of
                  (_, eneg, r1) \<Rightarrow> (case scan_digits r1 of (ed, r2) \<Rightarrow> (True, eneg, ed, r2)))
          else (False, False, [], cs)
      | [] \<Rightarrow> (False, False, [], cs))"

definition scan_float :: "string \<Rightarrow> float_field \<times> string" where
  "scan_float cs0 =
     (case scan_sign cs0 of
        (_, neg, cs1) \<Rightarrow>
          (case scan_digits cs1 of
             (ip, cs2) \<Rightarrow>
               (case scan_fraction cs2 of
                  (fp, cs3) \<Rightarrow>
                    (case scan_exponent (ip \<noteq> [] \<or> fp \<noteq> []) cs3 of
                       (he, eneg, ed, cs4) \<Rightarrow>
                         (\<lparr>ff_negative = neg, ff_int_digits = ip, ff_frac_digits = fp,
                           ff_has_exp = he, ff_exp_negative = eneg, ff_exp_digits = ed\<rparr>,
                          cs4)))))"

definition field_ok :: "float_field \<Rightarrow> bool" where
  "field_ok f = ((ff_int_digits f \<noteq> [] \<or> ff_frac_digits f \<noteq> [])
                 \<and> (ff_has_exp f \<longrightarrow> ff_exp_digits f \<noteq> []))"

definition field_value :: "float_field \<Rightarrow> rat" where
  "field_value f =
     (let m = of_nat (digits_val (ff_int_digits f @ ff_frac_digits f));
          ex = int (digits_val (ff_exp_digits f));
          e = (if ff_exp_negative f then - ex else ex) - int (length (ff_frac_digits f));
          a = m * power_int 10 e
      in if ff_negative f then - a else a)"

text \<open>The conversion of an accepted field, with the failure flag.\<close>

definition convert_field :: "float_field \<Rightarrow> double \<times> bool" where
  "convert_field f =
     (if \<not> field_ok f then (Finite 0, True)
      else let r = field_value f in
        if r = 0 then (if ff_negative f then NegZero else Finite 0, False)
        else (case round_to_double r of
                PosInf \<Rightarrow> (Finite DBL_MAX, True)
              | NegInf \<Rightarrow> (Finite (- DBL_MAX), True)
              | v \<Rightarrow> (v, False)))"

text \<open>
  The extraction itself.  On a stream that is not good nothing is stored in the
  variable (\<open>None\<close>); an empty stream fails in the same way after setting both bits.
\<close>

definition extract_double :: "istream \<Rightarrow> double option \<times> istream" where
  "extract_double s =
     (if \<not> good s then (None, s\<lparr>failbit := True\<rparr>)
      else case dropWhile isspace (chars s) of
             [] \<Rightarrow> (None, s\<lparr>chars := [], eofbit := True, failbit := True\<rparr>)
           | c # cs \<Rightarrow>
               (let (f, rest) = scan_float (c # cs);
                    (v, failed) = convert_field f
                in (Some v, \<lparr>chars = rest, eofbit = (rest = []), failbit = failed\<rparr>)))"

section \<open>Tokens and the token scanner\<close>

datatype TokenType =
  ADD | SUB | MUL | DIV | MOD | LPAREN | RPAREN | NUMBER | INPUT_EOF | UNKNOWN
  | KW_LET | EQUALS | NAME

text \<open>
  The class \<open>Token\<close> with its members \<open>kind\<close>, \<open>value\<close> and \<open>name\<close>, and its three
  constructors.
\<close>

record Token =
  kind :: TokenType
  tvalue :: double
  tname :: string

definition Token_of_type :: "TokenType \<Rightarrow> Token" where
  "Token_of_type type = \<lparr>kind = type, tvalue = Finite 0, tname = []\<rparr>"

definition Token_of_value :: "double \<Rightarrow> Token" where
  "Token_of_value val = \<lparr>kind = NUMBER, tvalue = val, tname = []\<rparr>"

definition Token_of_name :: "string \<Rightarrow> Token" where
  "Token_of_name nm = \<lparr>kind = NAME, tvalue = Finite 0, tname = nm\<rparr>"

text \<open>
  What a call can end with instead of a value: a thrown \<open>runtime_error\<close> with its
  message; the read of the local \<open>ch\<close> that no extraction has assigned (in
  \<open>doReadNextToken\<close>, when the extraction fails on a stream whose \<open>eofbit\<close> is not set),
  where the behaviour of the program is undefined and the model stops; and the exhaustion
  of the recursion bound of the parsing functions below.
\<close>

datatype failure = runtime_error string | indeterminate_read | out_of_fuel

text \<open>The class \<open>TokenStream\<close>.\<close>

record TokenStream =
  inputStream :: istream
  bufferFull :: bool
  buffer :: Token

definition TokenStream_new :: "istream \<Rightarrow> TokenStream" where
  "TokenStream_new s =
     \<lparr>inputStream = s, bufferFull = False, buffer = Token_of_type INPUT_EOF\<rparr>"

text \<open>
  \<open>readVariableOrKeyword\<close>, with its loop \<open>while (inputStream.get(ch))\<close>.
\<close>

function read_name_loop :: "string \<Rightarrow> istream \<Rightarrow> string \<times> istream" where
  "read_name_loop nm s =
     (case get_char s of
        (None, s') \<Rightarrow> (nm, s')
      | (Some ch, s') \<Rightarrow>
          if isalpha ch \<or> isdigit ch then read_name_loop (nm @ [ch]) s'
          else (nm, putback_char ch s'))"
  by pat_completeness auto
termination
  by (relation "measure (\<lambda>(nm, s). length (chars s))")
     (auto simp: get_char_def split: if_splits list.splits)

definition readVariableOrKeyword :: "char \<Rightarrow> istream \<Rightarrow> Token \<times> istream" where
  "readVariableOrKeyword ch s =
     (case read_name_loop [ch] s of
        (nm, s') \<Rightarrow> if nm = ''let'' then (Token_of_type KW_LET, s')
                    else (Token_of_name nm, s'))"

definition doReadNextToken :: "istream \<Rightarrow> (failure + Token) \<times> istream" where
  "doReadNextToken s =
     (case extract_char s of
        (r, s1) \<Rightarrow>
          if eofbit s1 then (Inr (Token_of_type INPUT_EOF), s1)
          else (case r of
                  None \<Rightarrow> (Inl indeterminate_read, s1)
                | Some ch \<Rightarrow>
                    if ch = CHR ''+'' then (Inr (Token_of_type ADD), s1)
                    else if ch = CHR ''-'' then (Inr (Token_of_type SUB), s1)
                    else if ch = CHR ''*'' then (Inr (Token_of_type MUL), s1)
                    else if ch = CHR ''/'' then (Inr (Token_of_type DIV), s1)
                    else if ch = CHR ''%'' then (Inr (Token_of_type MOD), s1)
                    else if ch = CHR ''('' then (Inr (Token_of_type LPAREN), s1)
                    else if ch = CHR '')'' then (Inr (Token_of_type RPAREN), s1)
                    else if ch = CHR ''='' then (Inr (Token_of_type EQUALS), s1)
                    else if isdigit ch \<or> ch = CHR ''.'' then
                      (case extract_double (putback_char ch s1) of
                         (Some val, s2) \<Rightarrow> (Inr (Token_of_value val), s2)
                       | (None, s2) \<Rightarrow> (Inl indeterminate_read, s2))
                    else if isalpha ch then
                      (case readVariableOrKeyword ch s1 of (t, s2) \<Rightarrow> (Inr t, s2))
                    else (Inr (Token_of_type UNKNOWN), s1)))"

text \<open>\<open>TokenStream::get\<close>.\<close>

definition TokenStream_get :: "TokenStream \<Rightarrow> (failure + Token) \<times> TokenStream" where
  "TokenStream_get ts =
     (if bufferFull ts then (Inr (buffer ts), ts\<lparr>bufferFull := False\<rparr>)
      else case doReadNextToken (inputStream ts) of
             (Inl e, s) \<Rightarrow> (Inl e, ts\<lparr>inputStream := s\<rparr>)
           | (Inr nextToken, s) \<Rightarrow>
               if kind nextToken = UNKNOWN
               then (Inl (runtime_error ''Unexpected token.''), ts\<lparr>inputStream := s\<rparr>)
               else (Inr nextToken, ts\<lparr>inputStream := s\<rparr>))"

text \<open>\<open>TokenStream::putback\<close>.\<close>

definition TokenStream_putback :: "TokenStream \<Rightarrow> Token \<Rightarrow> (failure + unit) \<times> TokenStream" where
  "TokenStream_putback ts token =
     (if bufferFull ts
      then (Inl (runtime_error ''Called pushfront with the buffer already full.''), ts)
      else (Inr (), ts\<lparr>bufferFull := True, buffer := token\<rparr>))"

text \<open>
  \<open>TokenStream::ignore\<close>.  Its loop \<open>while (doReadNextToken().kind != INPUT_EOF)\<close> is
  a recursion that is not bounded by the structure of an argument, so the result is an
  option, \<open>None\<close> standing for a loop that does not end (lemma \<open>skip_to_eof_total\<close>
  below shows that it always ends).
\<close>

partial_function (option) skip_to_eof :: "istream \<Rightarrow> ((failure + unit) \<times> istream) option" where
  "skip_to_eof s =
     (case doReadNextToken s of
        (Inl e, s') \<Rightarrow> Some (Inl e, s')
      | (Inr t, s') \<Rightarrow> if kind t \<noteq> INPUT_EOF then skip_to_eof s' else Some (Inr (), s'))"

definition TokenStream_ignore ::
  "TokenStream \<Rightarrow> TokenType \<Rightarrow> ((failure + unit) \<times> TokenStream) option" where
  "TokenStream_ignore ts tokenType =
     (if bufferFull ts \<and> kind (buffer ts) = tokenType
      then Some (Inr (), ts\<lparr>bufferFull := False\<rparr>)
      else map_option (\<lambda>(r, s). (r, ts\<lparr>bufferFull := False, inputStream := s\<rparr>))
             (skip_to_eof (inputStream ts)))"

section \<open>The variable table\<close>

record Variable =
  vname :: string
  vvalue :: double

type_synonym VarTable = "Variable list"

text \<open>\<open>VarTable::get\<close>: the value of the first variable of that name.\<close>

fun VarTable_get :: "VarTable \<Rightarrow> string \<Rightarrow> failure + double" where
  "VarTable_get [] nm = Inl (runtime_error (''Undefined variable '' @ [CHR 0x27] @ nm @ [CHR 0x27]))"
| "VarTable_get (var # variables) nm =
     (if nm = vname var then Inr (vvalue var) else VarTable_get variables nm)"

text \<open>
  \<open>VarTable::define\<close>: \<open>getVariable\<close> finds the first variable of that name, whose value
  is then assigned; without one, a new variable is pushed at the back.
\<close>

fun assign_first :: "string \<Rightarrow> double \<Rightarrow> VarTable \<Rightarrow> VarTable" where
  "assign_first nm v [] = []"
| "assign_first nm v (var # variables) =
     (if vname var = nm then var\<lparr>vvalue := v\<rparr> # variables
      else var # assign_first nm v variables)"

definition getVariable :: "VarTable \<Rightarrow> string \<Rightarrow> Variable option" where
  "getVariable variables nm = find (\<lambda>var. vname var = nm) variables"

definition VarTable_define :: "VarTable \<Rightarrow> string \<Rightarrow> double \<Rightarrow> double \<times> VarTable" where
  "VarTable_define variables nm v =
     (case getVariable variables nm of
        None \<Rightarrow> (v, variables @ [\<lparr>vname = nm, vvalue = v\<rparr>])
      | Some var \<Rightarrow> (v, assign_first nm v variables))"

section \<open>The parser and evaluator\<close>

text \<open>
  The functions of \<open>main.cpp\<close>, one for each nonterminal of the grammar.  A thrown
  exception ends the call with \<open>Inl\<close> and the token stream as it was when the
  exception was thrown: \<open>and_then\<close> runs the rest of a function body after a call that
  returned, and passes a failure on.
\<close>

definition and_then ::
  "(failure + 'a) \<times> 's \<Rightarrow> ('a \<Rightarrow> 's \<Rightarrow> (failure + 'b) \<times> 's) \<Rightarrow> (failure + 'b) \<times> 's" where
  "and_then m f = (case m of (Inl e, s) \<Rightarrow> (Inl e, s) | (Inr x, s) \<Rightarrow> f x s)"

definition throw :: "string \<Rightarrow> 's \<Rightarrow> (failure + 'a) \<times> 's" where
  "throw msg s = (Inl (runtime_error msg), s)"

text \<open>
  The functions \<open>primary\<close>, \<open>term\<close> and \<open>expression\<close> call each other; their first
  argument bounds the depth of these calls, an iteration of a loop counting as one call.
  The variable table is only read by them.
\<close>

function primary :: "nat \<Rightarrow> TokenStream \<Rightarrow> VarTable \<Rightarrow> (failure + double) \<times> TokenStream"
and termP :: "nat \<Rightarrow> TokenStream \<Rightarrow> VarTable \<Rightarrow> (failure + double) \<times> TokenStream"
and term_loop ::
  "nat \<Rightarrow> double \<Rightarrow> Token \<Rightarrow> TokenStream \<Rightarrow> VarTable \<Rightarrow> (failure + double) \<times> TokenStream"
and expression :: "nat \<Rightarrow> TokenStream \<Rightarrow> VarTable \<Rightarrow> (failure + double) \<times> TokenStream"
and expression_loop ::
  "nat \<Rightarrow> double \<Rightarrow> Token \<Rightarrow> TokenStream \<Rightarrow> VarTable \<Rightarrow> (failure + double) \<times> TokenStream"
where
  "primary 0 ts vt = (Inl out_of_fuel, ts)"
| "primary (Suc n) ts vt =
     and_then (TokenStream_get ts) (\<lambda>token ts1.
       if kind token = ADD then primary n ts1 vt
       else if kind token = SUB then
         and_then (primary n ts1 vt) (\<lambda>v ts2. (Inr (fneg v), ts2))
       else if kind token = LPAREN then
         and_then (expression n ts1 vt) (\<lambda>expr ts2.
         and_then (TokenStream_get ts2) (\<lambda>token2 ts3.
           if kind token2 \<noteq> RPAREN then throw ''Missing a right parenthesis.'' ts3
           else (Inr expr, ts3)))
       else if kind token = NUMBER then (Inr (tvalue token), ts1)
       else if kind token = NAME then (VarTable_get vt (tname token), ts1)
       else and_then (TokenStream_putback ts1 token) (\<lambda>u ts2.
              throw ''Expected a primary'' ts2))"
| "termP 0 ts vt = (Inl out_of_fuel, ts)"
| "termP (Suc n) ts vt =
     and_then (primary n ts vt) (\<lambda>left ts1.
     and_then (TokenStream_get ts1) (\<lambda>token ts2.
       term_loop n left token ts2 vt))"
| "term_loop 0 left token ts vt = (Inl out_of_fuel, ts)"
| "term_loop (Suc n) left token ts vt =
     (if kind token = MUL then
        and_then (primary n ts vt) (\<lambda>right ts1.
        and_then (TokenStream_get ts1) (\<lambda>token2 ts2.
          term_loop n (fmul left right) token2 ts2 vt))
      else if kind token = DIV then
        and_then (primary n ts vt) (\<lambda>right ts1.
          if is_zero right then throw ''Division by zero'' ts1
          else and_then (TokenStream_get ts1) (\<lambda>token2 ts2.
                 term_loop n (fdiv left right) token2 ts2 vt))
      else if kind token = MOD then
        and_then (primary n ts vt) (\<lambda>right ts1.
          if is_zero right then throw ''Division by zero'' ts1
          else and_then (TokenStream_get ts1) (\<lambda>token2 ts2.
                 term_loop n (fmod left right) token2 ts2 vt))
      else and_then (TokenStream_putback ts token) (\<lambda>u ts1. (Inr left, ts1)))"
| "expression 0 ts vt = (Inl out_of_fuel, ts)"
| "expression (Suc n) ts vt =
     and_then (termP n ts vt) (\<lambda>left ts1.
     and_then (TokenStream_get ts1) (\<lambda>token ts2.
       expression_loop n left token ts2 vt))"
| "expression_loop 0 left token ts vt = (Inl out_of_fuel, ts)"
| "expression_loop (Suc n) left token ts vt =
     (if kind token = ADD then
        and_then (termP n ts vt) (\<lambda>right ts1.
        and_then (TokenStream_get ts1) (\<lambda>token2 ts2.
          expression_loop n (fadd left right) token2 ts2 vt))
      else if kind token = SUB then
        and_then (termP n ts vt) (\<lambda>right ts1.
        and_then (TokenStream_get ts1) (\<lambda>token2 ts2.
          expression_loop n (fsub left right) token2 ts2 vt))
      else and_then (TokenStream_putback ts token) (\<lambda>u ts1. (Inr left, ts1)))"
  by pat_completeness simp_all
termination
  by (relation "measure (case_sum (case_sum (\<lambda>p. fst p) (\<lambda>p. fst p))
         (case_sum (\<lambda>p. fst p) (case_sum (\<lambda>p. fst p) (\<lambda>p. fst p))))") simp_all


text \<open>\<open>declaration\<close>, the only function that writes to the variable table.\<close>

definition declarationP ::
  "nat \<Rightarrow> TokenStream \<Rightarrow> VarTable \<Rightarrow> (failure + double) \<times> TokenStream \<times> VarTable" where
  "declarationP n ts vt =
     (case TokenStream_get ts of
        (Inl e, ts1) \<Rightarrow> (Inl e, ts1, vt)
      | (Inr token, ts1) \<Rightarrow>
          if kind token \<noteq> NAME then
            (case TokenStream_putback ts1 token of
               (Inl e, ts2) \<Rightarrow> (Inl e, ts2, vt)
             | (Inr u, ts2) \<Rightarrow>
                 (Inl (runtime_error (''Expected a variable name after '' @ [CHR 0x27] @ ''let''
                        @ [CHR 0x27] @ '' keyword.'')), ts2, vt))
          else
            (case TokenStream_get ts1 of
               (Inl e, ts2) \<Rightarrow> (Inl e, ts2, vt)
             | (Inr token2, ts2) \<Rightarrow>
                 if kind token2 \<noteq> EQUALS then
                   (case TokenStream_putback ts2 token2 of
                      (Inl e, ts3) \<Rightarrow> (Inl e, ts3, vt)
                    | (Inr u, ts3) \<Rightarrow>
                        (Inl (runtime_error (''Missing '' @ [CHR 0x27] @ ''='' @ [CHR 0x27]
                               @ '' in a declaration of '' @ [CHR 0x27] @ tname token
                               @ [CHR 0x27])), ts3, vt))
                 else
                   (case expression n ts2 vt of
                      (Inl e, ts3) \<Rightarrow> (Inl e, ts3, vt)
                    | (Inr v, ts3) \<Rightarrow> (Inr v, ts3, snd (VarTable_define vt (tname token) v)))))"

definition statement ::
  "nat \<Rightarrow> TokenStream \<Rightarrow> VarTable \<Rightarrow> (failure + double) \<times> TokenStream \<times> VarTable" where
  "statement n ts vt =
     (case TokenStream_get ts of
        (Inl e, ts1) \<Rightarrow> (Inl e, ts1, vt)
      | (Inr token, ts1) \<Rightarrow>
          if kind token = KW_LET then declarationP n ts1 vt
          else (case TokenStream_putback ts1 token of
                  (Inl e, ts2) \<Rightarrow> (Inl e, ts2, vt)
                | (Inr u, ts2) \<Rightarrow>
                    (case expression n ts2 vt of (r, ts3) \<Rightarrow> (r, ts3, vt))))"

text \<open>
  \<open>calculation\<close>: the loop over the statements of the line, with the local \<open>result\<close> as
  an argument; its first argument bounds the number of iterations.
\<close>

fun calculation_loop ::
  "nat \<Rightarrow> double \<Rightarrow> TokenStream \<Rightarrow> VarTable \<Rightarrow> (failure + double) \<times> TokenStream \<times> VarTable" where
  "calculation_loop 0 result ts vt = (Inl out_of_fuel, ts, vt)"
| "calculation_loop (Suc n) result ts vt =
     (case TokenStream_get ts of
        (Inl e, ts1) \<Rightarrow> (Inl e, ts1, vt)
      | (Inr token, ts1) \<Rightarrow>
          if kind token = INPUT_EOF then (Inr result, ts1, vt)
          else (case TokenStream_putback ts1 token of
                  (Inl e, ts2) \<Rightarrow> (Inl e, ts2, vt)
                | (Inr u, ts2) \<Rightarrow>
                    (case statement n ts2 vt of
                       (Inl e, ts3, vt3) \<Rightarrow> (Inl e, ts3, vt3)
                     | (Inr r, ts3, vt3) \<Rightarrow> calculation_loop n r ts3 vt3)))"

definition calculation ::
  "nat \<Rightarrow> TokenStream \<Rightarrow> VarTable \<Rightarrow> (failure + double) \<times> TokenStream \<times> VarTable" where
  "calculation n ts vt = calculation_loop n (Finite 0) ts vt"

text \<open>
  The entry point: \<open>calculation\<close> on a fresh token stream over one line of input, as
  \<open>main\<close> and \<open>testStatement\<close> call it.  The bound is large enough for every line
  (theorem \<open>evaluate_fuel_sufficient\<close> below).
\<close>

definition fuel_of :: "TokenStream \<Rightarrow> nat" where
  "fuel_of ts = 5 * length (chars (inputStream ts)) + 11"

definition evaluate :: "string \<Rightarrow> VarTable \<Rightarrow> (failure + double) \<times> VarTable" where
  "evaluate input vt =
     (let ts = TokenStream_new (istringstream input)
      in case calculation (fuel_of ts) ts vt of (r, ts', vt') \<Rightarrow> (r, vt'))"

section \<open>Measures of the input left, and results that did not run out of fuel\<close>

text \<open>
  The size of what a token stream still holds: the characters a good stream has left,
  and one more for a buffered token that is not the end of input.  Every token that
  \<open>get\<close> returns, other than the end of input, makes it smaller.
\<close>

definition isize :: "istream \<Rightarrow> nat" where
  "isize s = (if good s then length (chars s) else 0)"

definition tsize :: "TokenStream \<Rightarrow> nat" where
  "tsize ts = (if bufferFull ts \<and> kind (buffer ts) \<noteq> INPUT_EOF then 1 else 0)
              + isize (inputStream ts)"

definition weight :: "Token \<Rightarrow> nat" where
  "weight t = (if kind t = INPUT_EOF then 0 else 1)"

text \<open>
  A result is fueled when it is not the exhaustion of the recursion bound; \<open>extends a b\<close>
  says that \<open>b\<close> is the result \<open>a\<close> whenever \<open>a\<close> is fueled.
\<close>

definition fueled :: "(failure + 'a) \<times> 's \<Rightarrow> bool" where
  "fueled r = (fst r \<noteq> Inl out_of_fuel)"

definition extends :: "(failure + 'a) \<times> 's \<Rightarrow> (failure + 'a) \<times> 's \<Rightarrow> bool" where
  "extends a b = (fueled a \<longrightarrow> b = a)"

section \<open>Exact arithmetic on small integers\<close>

lemma round_half_even_of_int: "round_half_even (of_int m) = m"
  by (simp add: round_half_even_def)

lemma ilog2_of_nat:
  assumes "0 < n"
  shows "ilog2 (of_nat n) = int (floorlog 2 n) - 1"
proof -
  have q: "quotient_of (of_nat n) = (int n, 1)"
    using quotient_of_int [of "int n"] by (simp add: Rat.of_int_def)
  have f1: "floorlog 2 (Suc 0) = 1"
    by (simp add: floorlog_def)
  have b: "2 ^ (floorlog 2 n - 1) \<le> n"
    using floorlog_bounds [of n 2] assms by simp
  have pos: "0 < floorlog 2 n"
    using assms by (simp add: floorlog_def)
  have "power_int (2::rat) (int (floorlog 2 n) - 1) = 2 ^ (floorlog 2 n - 1)"
    using pos by (simp add: power_int_def nat_diff_distrib' of_nat_diff)
  also have "\<dots> \<le> of_nat n"
    using b by (metis of_nat_le_iff of_nat_numeral of_nat_power)
  finally show ?thesis
    using q f1 by (simp add: ilog2_def)
qed

lemma round_to_double_of_nat:
  assumes "0 < n" and "n < 2 ^ 53"
  shows "round_to_double (of_nat n) = Finite (of_nat n)"
proof -
  define L where "L = floorlog 2 n"
  have pos: "0 < L"
    using assms by (simp add: floorlog_def L_def)
  have "2 ^ (L - 1) \<le> n"
    using floorlog_bounds [of n 2] assms by (simp add: L_def)
  with assms have "(2::nat) ^ (L - 1) < 2 ^ 53" by simp
  then have "L - 1 < 53" by (rule power_less_imp_less_exp [rotated]) simp
  then have L53: "L \<le> 53" by simp
  have il: "ilog2 (of_nat n) = int L - 1"
    using ilog2_of_nat [OF assms(1)] by (simp add: L_def)
  have e: "max (ilog2 (rat_of_nat n) - 52) (- 1074) = - int (53 - L)"
    using il L53 pos by simp
  have pw: "power_int (2::rat) (- int (53 - L)) = 1 / 2 ^ (53 - L)"
    by (simp add: power_int_minus_divide)
  have sc: "rat_of_nat n / power_int 2 (- int (53 - L)) = of_int (int (n * 2 ^ (53 - L)))"
    by (simp add: pw)
  have rh: "round_half_even (rat_of_nat n / power_int 2 (- int (53 - L))) = int (n * 2 ^ (53 - L))"
    by (simp only: sc round_half_even_of_int)
  have v: "of_int (int (n * 2 ^ (53 - L))) * power_int (2::rat) (- int (53 - L)) = of_nat n"
    by (simp add: pw)
  have small: "\<not> (2::rat) ^ 1024 \<le> of_nat n"
  proof -
    have "rat_of_nat n < of_nat (2 ^ 53)"
      using assms(2) by (simp only: of_nat_less_iff)
    then show ?thesis by simp
  qed
  from assms(1) have nz: "rat_of_nat n \<noteq> 0" "0 < rat_of_nat n" "n * 2 ^ (53 - L) \<noteq> 0"
    by simp_all
  show ?thesis
    unfolding round_to_double_def Let_def
    using nz small by (simp only: abs_of_nat e rh v) simp
qed

lemma round_to_double_numeral:
  "numeral k < (9007199254740992::nat) \<Longrightarrow> round_to_double (numeral k) = Finite (numeral k)"
  using round_to_double_of_nat [of "numeral k"] by simp

lemma round_to_double_one: "round_to_double 1 = Finite 1"
  using round_to_double_of_nat [of 1] by simp

lemma trunc_numeral_div:
  "trunc (numeral a / numeral b) = numeral a div numeral b"
  "trunc (- (numeral a / numeral b)) = - (numeral a div numeral b)"
proof -
  have fl: "\<lfloor>numeral a / numeral b :: rat\<rfloor> = numeral a div numeral b"
    using floor_divide_of_int_eq [of "numeral a" "numeral b", where ?'a = rat] by simp
  then show "trunc (numeral a / numeral b) = numeral a div numeral b"
    by (simp add: trunc_def)
  have "\<not> (0::rat) \<le> - (numeral a / numeral b)"
    by simp
  then show "trunc (- (numeral a / numeral b)) = - (numeral a div numeral b)"
    using fl by (simp add: trunc_def ceiling_def)
qed

lemma and_then_cong_weak [cong]: "m = m' \<Longrightarrow> and_then m f = and_then m' f"
  by simp

lemma and_then_simps [simp]:
  "and_then (Inl e, s) f = (Inl e, s)"
  "and_then (Inr x, s) f = f x s"
  by (simp_all add: and_then_def)

lemmas fuel_numeral =
  primary.simps(2) [of "pred_numeral k" for k, folded numeral_eq_Suc]
  termP.simps(2) [of "pred_numeral k" for k, folded numeral_eq_Suc]
  term_loop.simps(2) [of "pred_numeral k" for k, folded numeral_eq_Suc]
  expression.simps(2) [of "pred_numeral k" for k, folded numeral_eq_Suc]
  expression_loop.simps(2) [of "pred_numeral k" for k, folded numeral_eq_Suc]
  calculation_loop.simps(2) [of "pred_numeral k" for k, folded numeral_eq_Suc]

lemmas lex_defs = TokenStream_get_def doReadNextToken_def extract_char_def good_def
  putback_char_def extract_double_def scan_float_def scan_digits_def scan_fraction_def
  scan_exponent_def convert_field_def field_ok_def
  field_value_def digits_val_def digit_val_def isdigit_def isspace_def isalpha_def is_sign_def
  Token_of_type_def Token_of_value_def Token_of_name_def readVariableOrKeyword_def get_char_def
  TokenStream_putback_def round_to_double_numeral round_to_double_one

lemmas eval_defs = evaluate_def calculation_def fuel_of_def TokenStream_new_def istringstream_def
  Let_def fuel_numeral throw_def statement_def declarationP_def lex_defs

section \<open>The scanner consumes its input\<close>

lemma scan_sign_length: "scan_sign cs = (b, neg, rest) \<Longrightarrow> length rest \<le> length cs"
  by (cases cs) (auto split: if_splits)

lemma scan_digits_length: "scan_digits cs = (ds, rest) \<Longrightarrow> length rest \<le> length cs"
  using length_dropWhile_le [of isdigit cs] by (auto simp: scan_digits_def)

lemma scan_fraction_length: "scan_fraction cs = (ds, rest) \<Longrightarrow> length rest \<le> length cs"
  using length_dropWhile_le [of isdigit "tl cs"]
  by (auto simp: scan_fraction_def scan_digits_def split: list.splits if_splits)

lemma scan_exponent_length:
  assumes "scan_exponent m cs = (he, eneg, ed, rest)"
  shows "length rest \<le> length cs"
proof (cases "rest = cs")
  case True
  then show ?thesis by simp
next
  case False
  with assms obtain c r b r1 where cs: "cs = c # r" and sg: "scan_sign r = (b, eneg, r1)"
      and dg: "scan_digits r1 = (ed, rest)"
    by (auto simp: scan_exponent_def split: list.splits if_splits prod.splits)
  from scan_sign_length [OF sg] scan_digits_length [OF dg] cs show ?thesis by simp
qed

lemma scan_float_length:
  assumes "scan_float (c # cs) = (f, rest)" and "isdigit c \<or> c = CHR ''.''"
  shows "length rest \<le> length cs"
proof -
  from assms(2) have ns: "\<not> is_sign c"
    by (auto simp: is_sign_def isdigit_def)
  obtain ip cs2 where d: "scan_digits (c # cs) = (ip, cs2)" by force
  obtain fp cs3 where fr: "scan_fraction cs2 = (fp, cs3)" by force
  obtain he eneg ed cs4 where ex: "scan_exponent (ip \<noteq> [] \<or> fp \<noteq> []) cs3 = (he, eneg, ed, cs4)"
    using prod_cases4 by blast
  from assms(1) ns d fr ex have r: "rest = cs4"
    by (simp add: scan_float_def)
  have "length cs3 \<le> length cs"
  proof (cases "isdigit c")
    case True
    with d have "cs2 = dropWhile isdigit cs" by (auto simp: scan_digits_def)
    then have "length cs2 \<le> length cs" by (simp add: length_dropWhile_le)
    with scan_fraction_length [OF fr] show ?thesis by simp
  next
    case False
    with assms(2) have c: "c = CHR ''.''" by simp
    with False d have "cs2 = c # cs" by (auto simp: scan_digits_def)
    with c fr have "scan_digits cs = (fp, cs3)" by (simp add: scan_fraction_def)
    then show ?thesis by (rule scan_digits_length)
  qed
  with scan_exponent_length [OF ex] r show ?thesis by simp
qed

lemma read_name_loop_length:
  "read_name_loop nm s = (nm', s') \<Longrightarrow> length (chars s') \<le> length (chars s)"
proof (induction nm s rule: read_name_loop.induct)
  case (1 nm s)
  show ?case
  proof (cases "get_char s")
    case (Pair r s1)
    show ?thesis
    proof (cases r)
      case None
      with Pair "1.prems" show ?thesis
        by (subst (asm) read_name_loop.simps) (auto simp: get_char_def split: if_splits list.splits)
    next
      case (Some ch)
      with Pair have sh: "length (chars s1) < length (chars s)" and g: "good s" "good s1"
        by (auto simp: get_char_def good_def split: if_splits list.splits)
      show ?thesis
      proof (cases "isalpha ch \<or> isdigit ch")
        case True
        with Pair Some "1.prems" have "read_name_loop (nm @ [ch]) s1 = (nm', s')"
          by (subst (asm) read_name_loop.simps) auto
        with "1.IH" [OF Pair [symmetric] Some True] sh show ?thesis by simp
      next
        case False
        with Pair Some "1.prems" have "s' = putback_char ch s1"
          by (subst (asm) read_name_loop.simps) auto
        moreover from Pair Some have "chars s = ch # chars s1"
          by (auto simp: get_char_def split: if_splits list.splits)
        ultimately show ?thesis using g
          by (simp add: putback_char_def good_def)
      qed
    qed
  qed
qed


lemma isize_le: "isize s \<le> length (chars s)"
  by (simp add: isize_def)

lemma extract_char_Some:
  "extract_char s = (Some c, s1) \<Longrightarrow>
     good s \<and> good s1 \<and> length (chars s1) < length (chars s)"
  using length_dropWhile_le [of isspace "chars s"]
  by (auto simp: extract_char_def good_def split: if_splits list.splits)

lemma extract_char_None: "extract_char s = (None, s1) \<Longrightarrow> \<not> good s1"
  by (auto simp: extract_char_def good_def split: if_splits list.splits)

lemma extract_double_chars:
  assumes "extract_double (putback_char c s1) = (r, s2)" and "good s1"
    and "isdigit c \<or> c = CHR ''.''"
  shows "length (chars s2) \<le> length (chars s1)"
proof -
  have ns: "\<not> isspace c"
    using assms(3) by (auto simp: isspace_def isdigit_def)
  from assms(2) have pb: "putback_char c s1 = s1\<lparr>chars := c # chars s1\<rparr>"
    by (simp add: putback_char_def good_def)
  obtain f rest where sf: "scan_float (c # chars s1) = (f, rest)" by force
  from assms(1,2) ns sf have "chars s2 = rest"
    by (auto simp: pb extract_double_def good_def split: prod.splits)
  with scan_float_length [OF sf assms(3)] show ?thesis by simp
qed

lemma doReadNextToken_eofbit:
  "extract_char s = (r, s1) \<Longrightarrow> eofbit s1 \<Longrightarrow>
     doReadNextToken s = (Inr (Token_of_type INPUT_EOF), s1)"
  by (simp add: doReadNextToken_def)

lemma doReadNextToken_None:
  "extract_char s = (None, s1) \<Longrightarrow> \<not> eofbit s1 \<Longrightarrow>
     doReadNextToken s = (Inl indeterminate_read, s1)"
  by (simp add: doReadNextToken_def)

lemma doReadNextToken_number:
  "extract_char s = (Some ch, s1) \<Longrightarrow> \<not> eofbit s1 \<Longrightarrow> isdigit ch \<or> ch = CHR ''.'' \<Longrightarrow>
     doReadNextToken s =
       (case extract_double (putback_char ch s1) of
          (Some val, s2) \<Rightarrow> (Inr (Token_of_value val), s2)
        | (None, s2) \<Rightarrow> (Inl indeterminate_read, s2))"
  by (auto simp: doReadNextToken_def isdigit_def)

lemma special_not_alpha:
  "ch \<in> set ''+-*/%()=.0123456789'' \<Longrightarrow> \<not> isalpha ch"
  by (auto simp: isalpha_def)

lemma isalpha_not_special:
  "isalpha ch \<Longrightarrow> ch \<notin> set ''+-*/%()=.0123456789''"
  using special_not_alpha by blast

lemma doReadNextToken_name:
  assumes "extract_char s = (Some ch, s1)" and "\<not> eofbit s1" and "isalpha ch"
  shows "doReadNextToken s = (case readVariableOrKeyword ch s1 of (t, s2) \<Rightarrow> (Inr t, s2))"
  using assms isalpha_not_special [OF assms(3)]
  by (simp add: doReadNextToken_def isdigit_def)

lemma doReadNextToken_other:
  "extract_char s = (Some ch, s1) \<Longrightarrow> \<not> eofbit s1 \<Longrightarrow> \<not> (isdigit ch \<or> ch = CHR ''.'') \<Longrightarrow>
     \<not> isalpha ch \<Longrightarrow>
     snd (doReadNextToken s) = s1 \<and>
     (\<forall>t. fst (doReadNextToken s) = Inr t \<longrightarrow> kind t \<noteq> INPUT_EOF)"
  by (simp add: doReadNextToken_def Token_of_type_def)

lemma doReadNextToken_decreases:
  assumes "doReadNextToken s = (Inr t, s')" and "kind t \<noteq> INPUT_EOF"
  shows "isize s' < isize s"
proof -
  obtain r s1 where ec: "extract_char s = (r, s1)" by force
  have ne: "\<not> eofbit s1"
  proof
    assume "eofbit s1"
    from doReadNextToken_eofbit [OF ec this] assms show False
      by (simp add: Token_of_type_def)
  qed
  from assms ec ne obtain ch where r: "r = Some ch"
    by (cases r) (auto simp: doReadNextToken_None)
  note ec' = ec [unfolded r]
  from extract_char_Some [OF ec']
  have g: "good s" "good s1" and sh: "length (chars s1) < length (chars s)" by simp_all
  have "length (chars s') \<le> length (chars s1)"
  proof (cases "isdigit ch \<or> ch = CHR ''.''")
    case True
    obtain v s2 where ed: "extract_double (putback_char ch s1) = (v, s2)" by force
    from assms(1) doReadNextToken_number [OF ec' ne True] ed have "s' = s2"
      by (auto split: option.splits)
    with extract_double_chars [OF ed g(2) True] show ?thesis by simp
  next
    case False
    show ?thesis
    proof (cases "isalpha ch")
      case True
      obtain nm s2 where rl: "read_name_loop [ch] s1 = (nm, s2)" by force
      from assms(1) doReadNextToken_name [OF ec' ne True] rl have "s' = s2"
        by (auto simp: readVariableOrKeyword_def split: if_splits)
      with read_name_loop_length [OF rl] show ?thesis by simp
    next
      case nalpha: False
      from assms(1) doReadNextToken_other [OF ec' ne False nalpha] have "s' = s1"
        by simp
      then show ?thesis by simp
    qed
  qed
  with sh have "length (chars s') < length (chars s)" by simp
  with g(1) isize_le [of s'] show ?thesis by (simp add: isize_def)
qed

lemma doReadNextToken_EOF:
  assumes "doReadNextToken s = (Inr t, s')" and "kind t = INPUT_EOF"
  shows "isize s' = 0"
proof -
  obtain r s1 where ec: "extract_char s = (r, s1)" by force
  show ?thesis
  proof (cases "eofbit s1")
    case True
    from doReadNextToken_eofbit [OF ec this] assms(1) True show ?thesis
      by (simp add: isize_def good_def)
  next
    case False
    from assms ec False obtain ch where r: "r = Some ch"
      by (cases r) (auto simp: doReadNextToken_None)
    note ec' = ec [unfolded r]
    have "kind t \<noteq> INPUT_EOF"
    proof (cases "isdigit ch \<or> ch = CHR ''.''")
      case True
      from assms(1) doReadNextToken_number [OF ec' False True] show ?thesis
        by (auto simp: Token_of_value_def split: prod.splits option.splits)
    next
      case nd: False
      show ?thesis
      proof (cases "isalpha ch")
        case True
        from assms(1) doReadNextToken_name [OF ec' False True] show ?thesis
          by (auto simp: readVariableOrKeyword_def Token_of_type_def Token_of_name_def
                split: prod.splits if_splits)
      next
        case nalpha: False
        from assms(1) doReadNextToken_other [OF ec' False nd nalpha] show ?thesis
          by simp
      qed
    qed
    with assms(2) show ?thesis by simp
  qed
qed

lemma TokenStream_get_tsize:
  assumes "TokenStream_get ts = (Inr t, ts')"
  shows "tsize ts' + weight t \<le> tsize ts"
proof (cases "bufferFull ts")
  case True
  with assms show ?thesis
    by (auto simp: TokenStream_get_def tsize_def weight_def)
next
  case False
  with assms obtain s' where d: "doReadNextToken (inputStream ts) = (Inr t, s')"
      and ts': "ts' = ts\<lparr>inputStream := s'\<rparr>"
    by (auto simp: TokenStream_get_def split: prod.splits sum.splits if_splits)
  show ?thesis
  proof (cases "kind t = INPUT_EOF")
    case True
    with doReadNextToken_EOF [OF d] False ts' show ?thesis
      by (simp add: tsize_def weight_def)
  next
    case nE: False
    with doReadNextToken_decreases [OF d] False ts' show ?thesis
      by (simp add: tsize_def weight_def)
  qed
qed

lemma TokenStream_putback_tsize:
  "TokenStream_putback ts t = (Inr u, ts') \<Longrightarrow> tsize ts' = tsize ts + weight t"
  by (auto simp: TokenStream_putback_def tsize_def weight_def split: if_splits)


section \<open>The parser consumes its input\<close>

lemma and_then_Inr_iff:
  "and_then m f = (Inr v, s') \<longleftrightarrow> (\<exists>x s. m = (Inr x, s) \<and> f x s = (Inr v, s'))"
  by (cases m; cases "fst m") (auto simp: and_then_def)

lemma and_then_Inr_D:
  "and_then m f = (Inr v, s') \<Longrightarrow> \<exists>x s. m = (Inr x, s) \<and> f x s = (Inr v, s')"
  by (simp add: and_then_Inr_iff)

lemma throw_not_Inr [simp]: "throw msg s \<noteq> (Inr v, s')"
  by (simp add: throw_def)

lemma get_weight_1:
  "TokenStream_get ts = (Inr t, ts') \<Longrightarrow> kind t \<noteq> INPUT_EOF \<Longrightarrow> tsize ts' < tsize ts"
  using TokenStream_get_tsize [of ts t ts'] by (simp add: weight_def)

lemma get_le:
  "TokenStream_get ts = (Inr t, ts') \<Longrightarrow> tsize ts' \<le> tsize ts"
  using TokenStream_get_tsize [of ts t ts'] by simp

lemma primary_step_tsize:
  assumes IHp: "\<And>ts vt v ts'. primary n ts vt = (Inr v, ts') \<Longrightarrow> tsize ts' < tsize ts"
    and IHe: "\<And>ts vt v ts'. expression n ts vt = (Inr v, ts') \<Longrightarrow> tsize ts' < tsize ts"
    and res: "primary (Suc n) ts vt = (Inr v, ts')"
  shows "tsize ts' < tsize ts"
proof -
  from res obtain token ts1 where g: "TokenStream_get ts = (Inr token, ts1)"
    and body: "(if kind token = ADD then primary n ts1 vt
       else if kind token = SUB then
         and_then (primary n ts1 vt) (\<lambda>v ts2. (Inr (fneg v), ts2))
       else if kind token = LPAREN then
         and_then (expression n ts1 vt) (\<lambda>expr ts2.
         and_then (TokenStream_get ts2) (\<lambda>token2 ts3.
           if kind token2 \<noteq> RPAREN then throw ''Missing a right parenthesis.'' ts3
           else (Inr expr, ts3)))
       else if kind token = NUMBER then (Inr (tvalue token), ts1)
       else if kind token = NAME then (VarTable_get vt (tname token), ts1)
       else and_then (TokenStream_putback ts1 token) (\<lambda>u ts2.
              throw ''Expected a primary'' ts2)) = (Inr v, ts')"
    by (auto simp: and_then_Inr_iff)
  have le: "tsize ts1 \<le> tsize ts" by (rule get_le [OF g])
  consider (add) "kind token = ADD" | (sub) "kind token = SUB" | (par) "kind token = LPAREN"
    | (num) "kind token = NUMBER" | (nam) "kind token = NAME"
    | (other) "kind token \<notin> {ADD, SUB, LPAREN, NUMBER, NAME}" by blast
  then show ?thesis
  proof cases
    case add
    with body IHp [of ts1 vt v ts'] le show ?thesis by simp
  next
    case sub
    with body obtain v0 where "primary n ts1 vt = (Inr v0, ts')"
      by (auto simp: and_then_Inr_iff)
    with IHp [of ts1 vt v0 ts'] le show ?thesis by simp
  next
    case par
    with body obtain ex ts2 token2 where e: "expression n ts1 vt = (Inr ex, ts2)"
      and g2: "TokenStream_get ts2 = (Inr token2, ts')"
      by (auto simp: and_then_Inr_iff split: if_splits)
    from IHe [OF e] get_le [OF g2] le show ?thesis by simp
  next
    case num
    with body have "ts' = ts1" by simp
    with get_weight_1 [OF g] num show ?thesis by simp
  next
    case nam
    with body have "ts' = ts1" by simp
    with get_weight_1 [OF g] nam show ?thesis by simp
  next
    case other
    with body show ?thesis by (auto simp: and_then_Inr_iff)
  qed
qed

lemma loop_default_tsize:
  assumes "and_then (TokenStream_putback ts token) (\<lambda>u ts1. (Inr left, ts1)) = (Inr v, ts')"
  shows "tsize ts' = tsize ts + weight token"
  using assms by (auto simp: and_then_Inr_iff dest: TokenStream_putback_tsize)

lemma loop_iter_tsize:
  assumes IHs: "\<And>ts vt v ts'. sub n ts vt = (Inr v, ts') \<Longrightarrow> tsize ts' < tsize ts"
    and IHl: "\<And>left token ts vt v ts'.
        loop n left token ts vt = (Inr v, ts') \<Longrightarrow> tsize ts' \<le> tsize ts + weight token"
    and res: "and_then (sub n ts vt) (\<lambda>right ts1.
               and_then (TokenStream_get ts1) (\<lambda>token2 ts2.
                 loop n (op left right) token2 ts2 vt)) = (Inr v, ts')"
  shows "tsize ts' < tsize ts"
proof -
  from res obtain right ts1 token2 ts2 where s: "sub n ts vt = (Inr right, ts1)"
    and g: "TokenStream_get ts1 = (Inr token2, ts2)"
    and l: "loop n (op left right) token2 ts2 vt = (Inr v, ts')"
    by (auto simp: and_then_Inr_iff)
  from IHs [OF s] TokenStream_get_tsize [OF g] IHl [OF l] show ?thesis by simp
qed


lemma loop_iter_guarded_tsize:
  assumes IHs: "\<And>ts vt v ts'. sub n ts vt = (Inr v, ts') \<Longrightarrow> tsize ts' < tsize ts"
    and IHl: "\<And>left token ts vt v ts'.
        loop n left token ts vt = (Inr v, ts') \<Longrightarrow> tsize ts' \<le> tsize ts + weight token"
    and res: "and_then (sub n ts vt) (\<lambda>right ts1.
               if is_zero right then throw msg ts1
               else and_then (TokenStream_get ts1) (\<lambda>token2 ts2.
                      loop n (op left right) token2 ts2 vt)) = (Inr v, ts')"
  shows "tsize ts' < tsize ts"
proof -
  from res obtain right ts1 token2 ts2 where s: "sub n ts vt = (Inr right, ts1)"
    and g: "TokenStream_get ts1 = (Inr token2, ts2)"
    and l: "loop n (op left right) token2 ts2 vt = (Inr v, ts')"
    by (auto simp: and_then_Inr_iff split: if_splits)
  from IHs [OF s] TokenStream_get_tsize [OF g] IHl [OF l] show ?thesis by simp
qed

lemma head_then_loop_tsize:
  assumes IHs: "\<And>ts vt v ts'. sub n ts vt = (Inr v, ts') \<Longrightarrow> tsize ts' < tsize ts"
    and IHl: "\<And>left token ts vt v ts'.
        loop n left token ts vt = (Inr v, ts') \<Longrightarrow> tsize ts' \<le> tsize ts + weight token"
    and res: "and_then (sub n ts vt) (\<lambda>left ts1.
               and_then (TokenStream_get ts1) (\<lambda>token ts2.
                 loop n left token ts2 vt)) = (Inr v, ts')"
  shows "tsize ts' < tsize ts"
proof -
  from res obtain left ts1 token ts2 where s: "sub n ts vt = (Inr left, ts1)"
    and g: "TokenStream_get ts1 = (Inr token, ts2)"
    and l: "loop n left token ts2 vt = (Inr v, ts')"
    by (auto simp: and_then_Inr_iff)
  from IHs [OF s] TokenStream_get_tsize [OF g] IHl [OF l] show ?thesis by simp
qed

lemma parser_tsize:
  "(\<forall>ts vt v ts'. primary n ts vt = (Inr v, ts') \<longrightarrow> tsize ts' < tsize ts)
   \<and> (\<forall>ts vt v ts'. termP n ts vt = (Inr v, ts') \<longrightarrow> tsize ts' < tsize ts)
   \<and> (\<forall>left token ts vt v ts'. term_loop n left token ts vt = (Inr v, ts')
         \<longrightarrow> tsize ts' \<le> tsize ts + weight token)
   \<and> (\<forall>ts vt v ts'. expression n ts vt = (Inr v, ts') \<longrightarrow> tsize ts' < tsize ts)
   \<and> (\<forall>left token ts vt v ts'. expression_loop n left token ts vt = (Inr v, ts')
         \<longrightarrow> tsize ts' \<le> tsize ts + weight token)"
proof (induction n)
  case 0
  show ?case by simp
next
  case (Suc n)
  note p = Suc [THEN conjunct1, rule_format]
    and t = Suc [THEN conjunct2, THEN conjunct1, rule_format]
    and tl = Suc [THEN conjunct2, THEN conjunct2, THEN conjunct1, rule_format]
    and e = Suc [THEN conjunct2, THEN conjunct2, THEN conjunct2, THEN conjunct1, rule_format]
    and el = Suc [THEN conjunct2, THEN conjunct2, THEN conjunct2, THEN conjunct2, rule_format]
  have P: "tsize ts' < tsize ts" if "primary (Suc n) ts vt = (Inr v, ts')" for ts vt v ts'
    using p e that by (rule primary_step_tsize)
  have T: "tsize ts' < tsize ts" if "termP (Suc n) ts vt = (Inr v, ts')" for ts vt v ts'
    using p tl that [unfolded termP.simps] by (rule head_then_loop_tsize)
  have E: "tsize ts' < tsize ts" if "expression (Suc n) ts vt = (Inr v, ts')" for ts vt v ts'
    using t el that [unfolded expression.simps] by (rule head_then_loop_tsize)
  have TL: "tsize ts' \<le> tsize ts + weight token"
    if r: "term_loop (Suc n) left token ts vt = (Inr v, ts')" for left token ts vt v ts'
  proof -
    consider (mul) "kind token = MUL" | (dv) "kind token = DIV" | (md) "kind token = MOD"
      | (other) "kind token \<notin> {MUL, DIV, MOD}" by blast
    then show ?thesis
    proof cases
      case mul
      with r have "and_then (primary n ts vt) (\<lambda>right ts1.
          and_then (TokenStream_get ts1) (\<lambda>token2 ts2.
            term_loop n (fmul left right) token2 ts2 vt)) = (Inr v, ts')" by simp
      then have "tsize ts' < tsize ts"
        by (rule loop_iter_tsize [where sub = primary and loop = term_loop and op = fmul, rotated 2])
           (erule p, erule tl)
      then show ?thesis by simp
    next
      case dv
      with r have "and_then (primary n ts vt) (\<lambda>right ts1.
          if is_zero right then throw ''Division by zero'' ts1
          else and_then (TokenStream_get ts1) (\<lambda>token2 ts2.
                 term_loop n (fdiv left right) token2 ts2 vt)) = (Inr v, ts')" by simp
      then have "tsize ts' < tsize ts"
        by (rule loop_iter_guarded_tsize [where sub = primary and loop = term_loop and op = fdiv, rotated 2])
           (erule p, erule tl)
      then show ?thesis by simp
    next
      case md
      with r have "and_then (primary n ts vt) (\<lambda>right ts1.
          if is_zero right then throw ''Division by zero'' ts1
          else and_then (TokenStream_get ts1) (\<lambda>token2 ts2.
                 term_loop n (fmod left right) token2 ts2 vt)) = (Inr v, ts')" by simp
      then have "tsize ts' < tsize ts"
        by (rule loop_iter_guarded_tsize [where sub = primary and loop = term_loop and op = fmod, rotated 2])
           (erule p, erule tl)
      then show ?thesis by simp
    next
      case other
      with r have "and_then (TokenStream_putback ts token) (\<lambda>u ts1. (Inr left, ts1)) = (Inr v, ts')"
        by simp
      from loop_default_tsize [OF this] show ?thesis by simp
    qed
  qed
  have EL: "tsize ts' \<le> tsize ts + weight token"
    if r: "expression_loop (Suc n) left token ts vt = (Inr v, ts')" for left token ts vt v ts'
  proof -
    consider (add) "kind token = ADD" | (sub) "kind token = SUB"
      | (other) "kind token \<notin> {ADD, SUB}" by blast
    then show ?thesis
    proof cases
      case add
      with r have "and_then (termP n ts vt) (\<lambda>right ts1.
          and_then (TokenStream_get ts1) (\<lambda>token2 ts2.
            expression_loop n (fadd left right) token2 ts2 vt)) = (Inr v, ts')" by simp
      then have "tsize ts' < tsize ts"
        by (rule loop_iter_tsize [where sub = termP and loop = expression_loop and op = fadd, rotated 2])
           (erule t, erule el)
      then show ?thesis by simp
    next
      case sub
      with r have "and_then (termP n ts vt) (\<lambda>right ts1.
          and_then (TokenStream_get ts1) (\<lambda>token2 ts2.
            expression_loop n (fsub left right) token2 ts2 vt)) = (Inr v, ts')" by simp
      then have "tsize ts' < tsize ts"
        by (rule loop_iter_tsize [where sub = termP and loop = expression_loop and op = fsub, rotated 2])
           (erule t, erule el)
      then show ?thesis by simp
    next
      case other
      with r have "and_then (TokenStream_putback ts token) (\<lambda>u ts1. (Inr left, ts1)) = (Inr v, ts')"
        by simp
      from loop_default_tsize [OF this] show ?thesis by simp
    qed
  qed
  from P T TL E EL show ?case by blast
qed


section \<open>The recursion bound of \<open>evaluate\<close> is never exhausted\<close>

lemma fueled_simps [simp]:
  "fueled (Inr x, s)"
  "fueled (Inl (runtime_error msg), s)"
  "fueled (Inl indeterminate_read, s)"
  "\<not> fueled (Inl out_of_fuel, s)"
  "fueled (throw msg s)"
  by (simp_all add: fueled_def throw_def)

lemma fueled_get [simp]: "fueled (TokenStream_get ts)"
  by (auto simp: TokenStream_get_def fueled_def doReadNextToken_def
        readVariableOrKeyword_def split: prod.splits sum.splits option.splits)


lemma fueled_putback [simp]: "fueled (TokenStream_putback ts t)"
  by (simp add: TokenStream_putback_def fueled_def)

lemma fueled_VarTable_get [simp]: "fueled (VarTable_get vt nm, s)"
  by (induction vt) (simp_all add: fueled_def)

lemma fueled_and_then:
  assumes "fueled m" and "\<And>x s. m = (Inr x, s) \<Longrightarrow> fueled (f x s)"
  shows "fueled (and_then m f)"
proof (cases m)
  case (Pair a s)
  with assms show ?thesis
    by (cases a) (auto simp: and_then_def fueled_def)
qed

lemma fueled_seq:
  assumes s: "fueled (sub n ts vt)"
    and dec: "\<And>v ts1. sub n ts vt = (Inr v, ts1) \<Longrightarrow> tsize ts1 < tsize ts"
    and k: "\<And>x token ts2. tsize ts2 < tsize ts \<Longrightarrow> fueled (k x token ts2)"
  shows "fueled (and_then (sub n ts vt) (\<lambda>x ts1.
           and_then (TokenStream_get ts1) (\<lambda>token ts2. k x token ts2)))"
proof (rule fueled_and_then [OF s])
  fix x ts1 assume r: "sub n ts vt = (Inr x, ts1)"
  show "fueled (and_then (TokenStream_get ts1) (\<lambda>token ts2. k x token ts2))"
  proof (rule fueled_and_then)
    show "fueled (TokenStream_get ts1)" by simp
  next
    fix token ts2 assume "TokenStream_get ts1 = (Inr token, ts2)"
    from get_le [OF this] dec [OF r] have "tsize ts2 < tsize ts" by simp
    then show "fueled (k x token ts2)" by (rule k)
  qed
qed

lemma fueled_seq_guarded:
  assumes s: "fueled (sub n ts vt)"
    and dec: "\<And>v ts1. sub n ts vt = (Inr v, ts1) \<Longrightarrow> tsize ts1 < tsize ts"
    and k: "\<And>x token ts2. tsize ts2 < tsize ts \<Longrightarrow> fueled (k x token ts2)"
  shows "fueled (and_then (sub n ts vt) (\<lambda>x ts1.
           if is_zero x then throw msg ts1
           else and_then (TokenStream_get ts1) (\<lambda>token ts2. k x token ts2)))"
proof (rule fueled_and_then [OF s])
  fix x ts1 assume r: "sub n ts vt = (Inr x, ts1)"
  have "fueled (and_then (TokenStream_get ts1) (\<lambda>token ts2. k x token ts2))"
  proof (rule fueled_and_then)
    show "fueled (TokenStream_get ts1)" by simp
  next
    fix token ts2 assume "TokenStream_get ts1 = (Inr token, ts2)"
    from get_le [OF this] dec [OF r] have "tsize ts2 < tsize ts" by simp
    then show "fueled (k x token ts2)" by (rule k)
  qed
  then show "fueled (if is_zero x then throw msg ts1
     else and_then (TokenStream_get ts1) (\<lambda>token ts2. k x token ts2))" by simp
qed

lemmas primary_tsize = parser_tsize [THEN conjunct1, rule_format]
  and termP_tsize = parser_tsize [THEN conjunct2, THEN conjunct1, rule_format]
  and term_loop_tsize = parser_tsize [THEN conjunct2, THEN conjunct2, THEN conjunct1, rule_format]
  and expression_tsize =
    parser_tsize [THEN conjunct2, THEN conjunct2, THEN conjunct2, THEN conjunct1, rule_format]
  and expression_loop_tsize =
    parser_tsize [THEN conjunct2, THEN conjunct2, THEN conjunct2, THEN conjunct2, rule_format]

lemma parser_fueled:
  "(\<forall>ts vt. 5 * tsize ts + 1 \<le> n \<longrightarrow> fueled (primary n ts vt))
   \<and> (\<forall>ts vt. 5 * tsize ts + 3 \<le> n \<longrightarrow> fueled (termP n ts vt))
   \<and> (\<forall>left token ts vt. 5 * tsize ts + 2 \<le> n \<longrightarrow> fueled (term_loop n left token ts vt))
   \<and> (\<forall>ts vt. 5 * tsize ts + 5 \<le> n \<longrightarrow> fueled (expression n ts vt))
   \<and> (\<forall>left token ts vt. 5 * tsize ts + 4 \<le> n \<longrightarrow> fueled (expression_loop n left token ts vt))"
proof (induction n)
  case 0
  show ?case by simp
next
  case (Suc n)
  note p = Suc [THEN conjunct1, rule_format]
    and t = Suc [THEN conjunct2, THEN conjunct1, rule_format]
    and tl = Suc [THEN conjunct2, THEN conjunct2, THEN conjunct1, rule_format]
    and e = Suc [THEN conjunct2, THEN conjunct2, THEN conjunct2, THEN conjunct1, rule_format]
    and el = Suc [THEN conjunct2, THEN conjunct2, THEN conjunct2, THEN conjunct2, rule_format]
  have P: "fueled (primary (Suc n) ts vt)" if b: "5 * tsize ts + 1 \<le> Suc n" for ts vt
  proof -
    have "fueled (and_then (TokenStream_get ts) (\<lambda>token ts1.
       if kind token = ADD then primary n ts1 vt
       else if kind token = SUB then
         and_then (primary n ts1 vt) (\<lambda>v ts2. (Inr (fneg v), ts2))
       else if kind token = LPAREN then
         and_then (expression n ts1 vt) (\<lambda>expr ts2.
         and_then (TokenStream_get ts2) (\<lambda>token2 ts3.
           if kind token2 \<noteq> RPAREN then throw ''Missing a right parenthesis.'' ts3
           else (Inr expr, ts3)))
       else if kind token = NUMBER then (Inr (tvalue token), ts1)
       else if kind token = NAME then (VarTable_get vt (tname token), ts1)
       else and_then (TokenStream_putback ts1 token) (\<lambda>u ts2.
              throw ''Expected a primary'' ts2)))"
    proof (rule fueled_and_then)
      show "fueled (TokenStream_get ts)" by simp
    next
      fix token ts1 assume g: "TokenStream_get ts = (Inr token, ts1)"
      have small: "5 * tsize ts1 + 5 \<le> n" if "kind token \<noteq> INPUT_EOF"
        using get_weight_1 [OF g that] b by simp
      have fp: "fueled (primary n ts1 vt)" if "kind token \<noteq> INPUT_EOF"
        using small [OF that] by (intro p) simp
      have fe: "fueled (expression n ts1 vt)" if "kind token \<noteq> INPUT_EOF"
        using small [OF that] by (intro e) simp
      show "fueled (if kind token = ADD then primary n ts1 vt
       else if kind token = SUB then
         and_then (primary n ts1 vt) (\<lambda>v ts2. (Inr (fneg v), ts2))
       else if kind token = LPAREN then
         and_then (expression n ts1 vt) (\<lambda>expr ts2.
         and_then (TokenStream_get ts2) (\<lambda>token2 ts3.
           if kind token2 \<noteq> RPAREN then throw ''Missing a right parenthesis.'' ts3
           else (Inr expr, ts3)))
       else if kind token = NUMBER then (Inr (tvalue token), ts1)
       else if kind token = NAME then (VarTable_get vt (tname token), ts1)
       else and_then (TokenStream_putback ts1 token) (\<lambda>u ts2.
              throw ''Expected a primary'' ts2))"
        using fp fe by (auto intro!: fueled_and_then)
    qed
    then show ?thesis by simp
  qed
  have T: "fueled (termP (Suc n) ts vt)" if b: "5 * tsize ts + 3 \<le> Suc n" for ts vt
    unfolding termP.simps
  proof (rule fueled_seq)
    show "fueled (primary n ts vt)" using b by (intro p) simp
    show "tsize ts1 < tsize ts" if "primary n ts vt = (Inr v, ts1)" for v ts1
      using that by (rule primary_tsize)
    show "fueled (term_loop n x token ts2 vt)" if "tsize ts2 < tsize ts" for x token ts2
      using that b by (intro tl) simp
  qed
  have E: "fueled (expression (Suc n) ts vt)" if b: "5 * tsize ts + 5 \<le> Suc n" for ts vt
    unfolding expression.simps
  proof (rule fueled_seq)
    show "fueled (termP n ts vt)" using b by (intro t) simp
    show "tsize ts1 < tsize ts" if "termP n ts vt = (Inr v, ts1)" for v ts1
      using that by (rule termP_tsize)
    show "fueled (expression_loop n x token ts2 vt)" if "tsize ts2 < tsize ts" for x token ts2
      using that b by (intro el) simp
  qed
  have TL: "fueled (term_loop (Suc n) left token ts vt)"
    if b: "5 * tsize ts + 2 \<le> Suc n" for left token ts vt
  proof -
    have s: "fueled (primary n ts vt)" using b by (intro p) simp
    have d: "tsize ts1 < tsize ts" if "primary n ts vt = (Inr v, ts1)" for v ts1
      using that by (rule primary_tsize)
    have k: "fueled (term_loop n x token2 ts2 vt)" if "tsize ts2 < tsize ts" for x token2 ts2
      using that b by (intro tl) simp
    consider (mul) "kind token = MUL" | (dv) "kind token = DIV" | (md) "kind token = MOD"
      | (other) "kind token \<notin> {MUL, DIV, MOD}" by blast
    then show ?thesis
    proof cases
      case mul
      then have eq: "term_loop (Suc n) left token ts vt =
        and_then (primary n ts vt) (\<lambda>right ts1.
          and_then (TokenStream_get ts1) (\<lambda>token2 ts2.
            term_loop n (fmul left right) token2 ts2 vt))" by simp
      show ?thesis unfolding eq by (rule fueled_seq) (rule s, erule d, erule k)
    next
      case dv
      then have eq: "term_loop (Suc n) left token ts vt =
        and_then (primary n ts vt) (\<lambda>right ts1.
          if is_zero right then throw ''Division by zero'' ts1
          else and_then (TokenStream_get ts1) (\<lambda>token2 ts2.
                 term_loop n (fdiv left right) token2 ts2 vt))" by simp
      show ?thesis unfolding eq by (rule fueled_seq_guarded) (rule s, erule d, erule k)
    next
      case md
      then have eq: "term_loop (Suc n) left token ts vt =
        and_then (primary n ts vt) (\<lambda>right ts1.
          if is_zero right then throw ''Division by zero'' ts1
          else and_then (TokenStream_get ts1) (\<lambda>token2 ts2.
                 term_loop n (fmod left right) token2 ts2 vt))" by simp
      show ?thesis unfolding eq by (rule fueled_seq_guarded) (rule s, erule d, erule k)
    next
      case other
      then have eq: "term_loop (Suc n) left token ts vt =
        and_then (TokenStream_putback ts token) (\<lambda>u ts1. (Inr left, ts1))" by simp
      show ?thesis unfolding eq by (rule fueled_and_then) simp_all
    qed
  qed
  have EL: "fueled (expression_loop (Suc n) left token ts vt)"
    if b: "5 * tsize ts + 4 \<le> Suc n" for left token ts vt
  proof -
    have s: "fueled (termP n ts vt)" using b by (intro t) simp
    have d: "tsize ts1 < tsize ts" if "termP n ts vt = (Inr v, ts1)" for v ts1
      using that by (rule termP_tsize)
    have k: "fueled (expression_loop n x token2 ts2 vt)" if "tsize ts2 < tsize ts" for x token2 ts2
      using that b by (intro el) simp
    consider (add) "kind token = ADD" | (sub) "kind token = SUB"
      | (other) "kind token \<notin> {ADD, SUB}" by blast
    then show ?thesis
    proof cases
      case add
      then have eq: "expression_loop (Suc n) left token ts vt =
        and_then (termP n ts vt) (\<lambda>right ts1.
          and_then (TokenStream_get ts1) (\<lambda>token2 ts2.
            expression_loop n (fadd left right) token2 ts2 vt))" by simp
      show ?thesis unfolding eq by (rule fueled_seq) (rule s, erule d, erule k)
    next
      case sub
      then have eq: "expression_loop (Suc n) left token ts vt =
        and_then (termP n ts vt) (\<lambda>right ts1.
          and_then (TokenStream_get ts1) (\<lambda>token2 ts2.
            expression_loop n (fsub left right) token2 ts2 vt))" by simp
      show ?thesis unfolding eq by (rule fueled_seq) (rule s, erule d, erule k)
    next
      case other
      then have eq: "expression_loop (Suc n) left token ts vt =
        and_then (TokenStream_putback ts token) (\<lambda>u ts1. (Inr left, ts1))" by simp
      show ?thesis unfolding eq by (rule fueled_and_then) simp_all
    qed
  qed
  from P T TL E EL show ?case by blast
qed


lemmas primary_fueled = parser_fueled [THEN conjunct1, rule_format]
  and expression_fueled =
    parser_fueled [THEN conjunct2, THEN conjunct2, THEN conjunct2, THEN conjunct1, rule_format]

lemma putback_le:
  "TokenStream_get ts = (Inr t, ts1) \<Longrightarrow> TokenStream_putback ts1 t = (Inr u, ts2) \<Longrightarrow>
     tsize ts2 \<le> tsize ts"
  using TokenStream_get_tsize [of ts t ts1] TokenStream_putback_tsize [of ts1 t u ts2] by simp

lemma declarationP_Inr:
  assumes "declarationP n ts vt = (Inr v, ts', vt')"
  obtains token ts1 token2 ts2 where "TokenStream_get ts = (Inr token, ts1)"
    and "TokenStream_get ts1 = (Inr token2, ts2)" and "kind token = NAME"
    and "expression n ts2 vt = (Inr v, ts')"
    and "vt' = snd (VarTable_define vt (tname token) v)"
  using assms unfolding declarationP_def
  by (auto split: prod.splits sum.splits if_splits)

lemma declarationP_tsize:
  assumes "declarationP n ts vt = (Inr v, ts', vt')"
  shows "tsize ts' < tsize ts"
proof -
  from assms obtain token ts1 token2 ts2 where g1: "TokenStream_get ts = (Inr token, ts1)"
    and g2: "TokenStream_get ts1 = (Inr token2, ts2)"
    and e: "expression n ts2 vt = (Inr v, ts')"
    by (rule declarationP_Inr)
  from get_le [OF g1] get_le [OF g2] expression_tsize [OF e] show ?thesis by simp
qed

lemma statement_tsize:
  assumes "statement n ts vt = (Inr v, ts', vt')"
  shows "tsize ts' < tsize ts"
proof -
  from assms obtain token ts1 where g: "TokenStream_get ts = (Inr token, ts1)"
    by (auto simp: statement_def split: prod.splits sum.splits)
  show ?thesis
  proof (cases "kind token = KW_LET")
    case True
    with assms g have "declarationP n ts1 vt = (Inr v, ts', vt')"
      by (simp add: statement_def)
    from declarationP_tsize [OF this] get_le [OF g] show ?thesis by simp
  next
    case False
    with assms g obtain u ts2 where pb: "TokenStream_putback ts1 token = (Inr u, ts2)"
      and e: "expression n ts2 vt = (Inr v, ts')"
      by (auto simp: statement_def split: prod.splits sum.splits)
    from putback_le [OF g pb] expression_tsize [OF e] show ?thesis by simp
  qed
qed

lemma declarationP_failure_keeps_store:
  "declarationP n ts vt = (Inl e, ts', vt') \<Longrightarrow> vt' = vt"
  unfolding declarationP_def
  by (auto split: prod.splits sum.splits if_splits)

lemma statement_failure_keeps_store:
  "statement n ts vt = (Inl e, ts', vt') \<Longrightarrow> vt' = vt"
  unfolding statement_def
  by (auto split: prod.splits sum.splits if_splits dest: declarationP_failure_keeps_store)

lemma fueled_triple: "fueled (r, ts, vt) \<longleftrightarrow> r \<noteq> Inl out_of_fuel"
  by (simp add: fueled_def)

lemma fueled_get_D: "TokenStream_get ts = (Inl e, ts') \<Longrightarrow> e \<noteq> out_of_fuel"
  using fueled_get [of ts] by (auto simp: fueled_def)

lemma fueled_putback_D: "TokenStream_putback ts t = (Inl e, ts') \<Longrightarrow> e \<noteq> out_of_fuel"
  using fueled_putback [of ts t] by (auto simp: fueled_def)

lemma declarationP_fueled:
  assumes "5 * tsize ts + 5 \<le> n"
  shows "fueled (declarationP n ts vt)"
proof -
  have ex: "fueled (expression n ts2 vt)"
    if "TokenStream_get ts = (Inr token, ts1)" "TokenStream_get ts1 = (Inr token2, ts2)"
    for token ts1 token2 ts2
    using get_le [OF that(1)] get_le [OF that(2)] assms by (intro expression_fueled) simp
  show ?thesis
    unfolding declarationP_def
    by (auto simp: fueled_triple split: prod.splits sum.splits
          dest: fueled_get_D fueled_putback_D dest!: ex simp: fueled_def)
qed

lemma statement_fueled:
  assumes "5 * tsize ts + 5 \<le> n"
  shows "fueled (statement n ts vt)"
proof -
  obtain a ts1 where g: "TokenStream_get ts = (a, ts1)" by force
  show ?thesis
  proof (cases a)
    case (Inl e)
    with g fueled_get_D [of ts e ts1] show ?thesis
      by (simp add: statement_def fueled_def)
  next
    case (Inr token)
    note g = g [unfolded Inr]
    show ?thesis
    proof (cases "kind token = KW_LET")
      case True
      have "fueled (declarationP n ts1 vt)"
        using get_le [OF g] assms by (intro declarationP_fueled) simp
      with g True show ?thesis by (simp add: statement_def)
    next
      case False
      obtain b ts2 where pb: "TokenStream_putback ts1 token = (b, ts2)" by force
      show ?thesis
      proof (cases b)
        case (Inl e)
        with g False pb fueled_putback_D [of ts1 token e ts2] show ?thesis
          by (simp add: statement_def fueled_def)
      next
        case (Inr u)
        note pb = pb [unfolded Inr]
        have "fueled (expression n ts2 vt)"
          using putback_le [OF g pb] assms by (intro expression_fueled) simp
        with g False pb show ?thesis
          by (cases "expression n ts2 vt") (simp add: statement_def fueled_def)
      qed
    qed
  qed
qed

lemma calculation_loop_fueled:
  "5 * tsize ts + 6 \<le> n \<Longrightarrow> fueled (calculation_loop n result ts vt)"
proof (induction n arbitrary: result ts vt)
  case 0
  then show ?case by simp
next
  case (Suc n)
  obtain a ts1 where g: "TokenStream_get ts = (a, ts1)" by force
  show ?case
  proof (cases a)
    case (Inl e)
    with g fueled_get_D [of ts e ts1] show ?thesis
      by (simp add: fueled_def)
  next
    case (Inr token)
    note g = g [unfolded Inr]
    show ?thesis
    proof (cases "kind token = INPUT_EOF")
      case True
      with g show ?thesis by (simp add: fueled_def)
    next
      case False
      obtain b ts2 where pb: "TokenStream_putback ts1 token = (b, ts2)" by force
      show ?thesis
      proof (cases b)
        case (Inl e)
        with g False pb fueled_putback_D [of ts1 token e ts2] show ?thesis
          by (simp add: fueled_def)
      next
        case (Inr u)
        note pb = pb [unfolded Inr]
        have le: "tsize ts2 \<le> tsize ts" by (rule putback_le [OF g pb])
        have st: "fueled (statement n ts2 vt)"
          using le Suc.prems by (intro statement_fueled) simp
        obtain c ts3 vt3 where s: "statement n ts2 vt = (c, ts3, vt3)"
          using prod_cases3 by blast
        show ?thesis
        proof (cases c)
          case (Inl e)
          with g False pb s st show ?thesis by (simp add: fueled_def)
        next
          case (Inr r)
          note s = s [unfolded Inr]
          have "fueled (calculation_loop n r ts3 vt3)"
            using le statement_tsize [OF s] Suc.prems by (intro Suc.IH) simp
          with g False pb s show ?thesis by simp
        qed
      qed
    qed
  qed
qed


section \<open>A larger recursion bound gives the same result\<close>

lemma extends_refl: "extends a a"
  by (simp add: extends_def)

lemma extends_out_of_fuel: "extends (Inl out_of_fuel, s) b"
  by (simp add: extends_def)

lemma extends_if:
  "(c \<Longrightarrow> extends a a') \<Longrightarrow> (\<not> c \<Longrightarrow> extends b b') \<Longrightarrow>
     extends (if c then a else b) (if c then a' else b')"
  by simp

lemma extends_and_then:
  assumes "extends m m'" and "\<And>x s. extends (f x s) (f' x s)"
  shows "extends (and_then m f) (and_then m' f')"
proof (cases m)
  case (Pair a s)
  show ?thesis
  proof (cases a)
    case (Inl e)
    with Pair assms(1) show ?thesis
      by (cases "e = out_of_fuel") (auto simp: extends_def fueled_def and_then_def)
  next
    case (Inr x)
    with Pair assms(1) have "m' = (Inr x, s)" by (simp add: extends_def)
    with Pair Inr assms(2) [of x s] show ?thesis by (simp add: extends_def and_then_def)
  qed
qed

lemma parser_extends:
  "(\<forall>ts vt. extends (primary n ts vt) (primary (Suc n) ts vt))
   \<and> (\<forall>ts vt. extends (termP n ts vt) (termP (Suc n) ts vt))
   \<and> (\<forall>left token ts vt. extends (term_loop n left token ts vt) (term_loop (Suc n) left token ts vt))
   \<and> (\<forall>ts vt. extends (expression n ts vt) (expression (Suc n) ts vt))
   \<and> (\<forall>left token ts vt.
         extends (expression_loop n left token ts vt) (expression_loop (Suc n) left token ts vt))"
proof (induction n)
  case 0
  show ?case by (simp add: extends_out_of_fuel)
next
  case (Suc n)
  note p = Suc [THEN conjunct1, rule_format]
    and t = Suc [THEN conjunct2, THEN conjunct1, rule_format]
    and tl = Suc [THEN conjunct2, THEN conjunct2, THEN conjunct1, rule_format]
    and e = Suc [THEN conjunct2, THEN conjunct2, THEN conjunct2, THEN conjunct1, rule_format]
    and el = Suc [THEN conjunct2, THEN conjunct2, THEN conjunct2, THEN conjunct2, rule_format]
  have P: "extends (primary (Suc n) ts vt) (primary (Suc (Suc n)) ts vt)" for ts vt
    by (subst primary.simps(2), subst primary.simps(2))
       (intro extends_and_then extends_if extends_refl p e)
  have T: "extends (termP (Suc n) ts vt) (termP (Suc (Suc n)) ts vt)" for ts vt
    by (subst termP.simps(2), subst termP.simps(2))
       (intro extends_and_then extends_if extends_refl p tl)
  have TL: "extends (term_loop (Suc n) left token ts vt) (term_loop (Suc (Suc n)) left token ts vt)"
    for left token ts vt
    by (subst term_loop.simps(2), subst term_loop.simps(2))
       (intro extends_and_then extends_if extends_refl p tl)
  have E: "extends (expression (Suc n) ts vt) (expression (Suc (Suc n)) ts vt)" for ts vt
    by (subst expression.simps(2), subst expression.simps(2))
       (intro extends_and_then extends_if extends_refl t el)
  have EL: "extends (expression_loop (Suc n) left token ts vt)
              (expression_loop (Suc (Suc n)) left token ts vt)" for left token ts vt
    by (subst expression_loop.simps(2), subst expression_loop.simps(2))
       (intro extends_and_then extends_if extends_refl t el)
  from P T TL E EL show ?case by blast
qed

lemma expression_more_fuel:
  "fueled (expression n ts vt) \<Longrightarrow> expression (n + k) ts vt = expression n ts vt"
proof (induction k)
  case 0
  show ?case by simp
next
  case (Suc k)
  from parser_extends [of "n + k"]
  have "extends (expression (n + k) ts vt) (expression (Suc (n + k)) ts vt)" by blast
  with Suc show ?case by (simp add: extends_def)
qed


lemma declarationP_more_fuel:
  assumes "fueled (declarationP n ts vt)"
  shows "declarationP (n + k) ts vt = declarationP n ts vt"
proof -
  have "expression (n + k) ts2 vt = expression n ts2 vt"
    if "expression n ts2 vt \<noteq> (Inl out_of_fuel, snd (expression n ts2 vt))" for ts2
    using that by (intro expression_more_fuel) (cases "expression n ts2 vt", simp add: fueled_def)
  with assms show ?thesis
    unfolding declarationP_def fueled_def
    by (auto split: prod.splits sum.splits if_splits)
qed


lemma statement_more_fuel:
  assumes "fueled (statement n ts vt)"
  shows "statement (n + k) ts vt = statement n ts vt"
proof -
  obtain a ts1 where g: "TokenStream_get ts = (a, ts1)" by force
  show ?thesis
  proof (cases a)
    case (Inl e)
    with g show ?thesis by (simp add: statement_def)
  next
    case (Inr token)
    note g = g [unfolded Inr]
    show ?thesis
    proof (cases "kind token = KW_LET")
      case True
      with assms g have "fueled (declarationP n ts1 vt)"
        by (simp add: statement_def)
      from declarationP_more_fuel [OF this, of k] g True show ?thesis
        by (simp add: statement_def)
    next
      case False
      obtain b ts2 where pb: "TokenStream_putback ts1 token = (b, ts2)" by force
      show ?thesis
      proof (cases b)
        case (Inl e)
        with g False pb show ?thesis by (simp add: statement_def)
      next
        case (Inr u)
        note pb = pb [unfolded Inr]
        from assms g False pb have "fueled (expression n ts2 vt)"
          by (cases "expression n ts2 vt") (simp add: statement_def fueled_def)
        from expression_more_fuel [OF this, of k] g False pb show ?thesis
          by (simp add: statement_def)
      qed
    qed
  qed
qed

lemma calculation_loop_more_fuel:
  "fueled (calculation_loop n result ts vt) \<Longrightarrow>
     calculation_loop (n + k) result ts vt = calculation_loop n result ts vt"
proof (induction n arbitrary: result ts vt)
  case 0
  then show ?case by simp
next
  case (Suc n)
  obtain a ts1 where g: "TokenStream_get ts = (a, ts1)" by force
  show ?case
  proof (cases a)
    case (Inl e)
    with g show ?thesis by simp
  next
    case (Inr token)
    note g = g [unfolded Inr]
    show ?thesis
    proof (cases "kind token = INPUT_EOF")
      case True
      with g show ?thesis by simp
    next
      case False
      obtain b ts2 where pb: "TokenStream_putback ts1 token = (b, ts2)" by force
      show ?thesis
      proof (cases b)
        case (Inl e)
        with g False pb show ?thesis by simp
      next
        case (Inr u)
        note pb = pb [unfolded Inr]
        obtain c ts3 vt3 where s: "statement n ts2 vt = (c, ts3, vt3)"
          using prod_cases3 by blast
        show ?thesis
        proof (cases c)
          case (Inl e)
          with Suc.prems g False pb s have "fueled (statement n ts2 vt)"
            by (simp add: fueled_def)
          from statement_more_fuel [OF this, of k] g False pb s Inl show ?thesis
            by simp
        next
          case (Inr r)
          with s have "fueled (statement n ts2 vt)" by (simp add: fueled_def)
          from statement_more_fuel [OF this, of k]
          have s': "statement (n + k) ts2 vt = (Inr r, ts3, vt3)"
            using s Inr by simp
          from Suc.prems g False pb s Inr have "fueled (calculation_loop n r ts3 vt3)"
            by simp
          from Suc.IH [OF this] g False pb s s' Inr show ?thesis by simp
        qed
      qed
    qed
  qed
qed

lemma tsize_le_length: "tsize ts \<le> length (chars (inputStream ts)) + 1"
  using isize_le [of "inputStream ts"] by (simp add: tsize_def)

theorem evaluate_fuel_sufficient:
  "fueled (calculation (fuel_of ts) ts vt)
   \<and> calculation (fuel_of ts + k) ts vt = calculation (fuel_of ts) ts vt"
proof -
  have "5 * tsize ts + 6 \<le> fuel_of ts"
    using tsize_le_length [of ts] by (simp add: fuel_of_def)
  then have f: "fueled (calculation_loop (fuel_of ts) (Finite 0) ts vt)"
    by (rule calculation_loop_fueled)
  from f calculation_loop_more_fuel [OF f, of k] show ?thesis
    by (simp add: calculation_def)
qed

lemma skip_to_eof_total: "\<exists>y. skip_to_eof s = Some y"
proof (induction "isize s" arbitrary: s rule: less_induct)
  case less
  obtain a s' where d: "doReadNextToken s = (a, s')" by force
  show ?case
  proof (cases a)
    case (Inl e)
    with d show ?thesis by (subst skip_to_eof.simps) simp
  next
    case (Inr t)
    note d = d [unfolded Inr]
    show ?thesis
    proof (cases "kind t = INPUT_EOF")
      case True
      with d show ?thesis by (subst skip_to_eof.simps) simp
    next
      case False
      from less [OF doReadNextToken_decreases [OF d False]]
      obtain y where "skip_to_eof s' = Some y" by blast
      with d False show ?thesis by (subst skip_to_eof.simps) simp
    qed
  qed
qed

section \<open>The variable table: names stay unique\<close>

lemma getVariable_None_iff: "getVariable vt nm = None \<longleftrightarrow> nm \<notin> vname ` set vt"
  by (induction vt) (auto simp: getVariable_def)

lemma VarTable_get_append_absent:
  "nm \<notin> vname ` set vt \<Longrightarrow> VarTable_get (vt @ [\<lparr>vname = nm, vvalue = v\<rparr>]) nm = Inr v"
  by (induction vt) auto

lemma VarTable_get_append_other:
  "nm' \<noteq> nm \<Longrightarrow>
   nm' \<in> vname ` set vt \<Longrightarrow> VarTable_get (vt @ [\<lparr>vname = nm, vvalue = v\<rparr>]) nm' = VarTable_get vt nm'"
  by (induction vt) auto

lemma VarTable_get_assign_first:
  "nm \<in> vname ` set vt \<Longrightarrow> VarTable_get (assign_first nm v vt) nm = Inr v"
  by (induction vt) auto

lemma VarTable_get_assign_first_other:
  "nm' \<noteq> nm \<Longrightarrow> VarTable_get (assign_first nm v vt) nm' = VarTable_get vt nm'"
  by (induction vt) auto

lemma map_vname_assign_first: "map vname (assign_first nm v vt) = map vname vt"
  by (induction vt) auto

lemma VarTable_get_define:
  "VarTable_get (snd (VarTable_define vt nm v)) nm = Inr v"
proof (cases "getVariable vt nm")
  case None
  then have "nm \<notin> vname ` set vt"
    by (simp add: getVariable_None_iff)
  then have "VarTable_get (vt @ [\<lparr>vname = nm, vvalue = v\<rparr>]) nm = Inr v"
    by (rule VarTable_get_append_absent)
  with None show ?thesis
    by (simp add: VarTable_define_def)
next
  case (Some var)
  then have "nm \<in> vname ` set vt"
    using getVariable_None_iff [of vt nm] by auto
  with Some show ?thesis
    by (simp add: VarTable_define_def VarTable_get_assign_first)
qed

text \<open>
  C8.  \<open>define\<close> returns the value it was given, and afterwards \<open>get\<close> of that name
  returns this value.  When the name is absent, the pair is appended; when it is
  present, the table keeps its length and its sequence of names (the assignment is in
  place) and every other name keeps its value.  A table whose names are distinct stays
  so.
\<close>

theorem VarTable_define_keeps_names_unique:
  "fst (VarTable_define vt nm v) = v
   \<and> VarTable_get (snd (VarTable_define vt nm v)) nm = Inr v
   \<and> (nm \<notin> vname ` set vt \<longrightarrow>
        snd (VarTable_define vt nm v) = vt @ [\<lparr>vname = nm, vvalue = v\<rparr>])
   \<and> (nm \<in> vname ` set vt \<longrightarrow>
        length (snd (VarTable_define vt nm v)) = length vt
        \<and> map vname (snd (VarTable_define vt nm v)) = map vname vt
        \<and> (\<forall>nm'. nm' \<noteq> nm \<longrightarrow>
              VarTable_get (snd (VarTable_define vt nm v)) nm' = VarTable_get vt nm'))
   \<and> (distinct (map vname vt) \<longrightarrow> distinct (map vname (snd (VarTable_define vt nm v))))"
proof (cases "getVariable vt nm")
  case None
  then have absent: "nm \<notin> vname ` set vt"
    by (simp add: getVariable_None_iff)
  from None have "VarTable_define vt nm v = (v, vt @ [\<lparr>vname = nm, vvalue = v\<rparr>])"
    by (simp add: VarTable_define_def)
  with absent show ?thesis
    by (simp add: VarTable_get_append_absent)
next
  case (Some var)
  then have present: "nm \<in> vname ` set vt"
    using getVariable_None_iff [of vt nm] by auto
  from Some have def: "VarTable_define vt nm v = (v, assign_first nm v vt)"
    by (simp add: VarTable_define_def)
  have "length (assign_first nm v vt) = length (map vname (assign_first nm v vt))"
    by simp
  then have len: "length (assign_first nm v vt) = length vt"
    by (simp only: map_vname_assign_first length_map)
  from present def len show ?thesis
    by (simp add: VarTable_get_assign_first VarTable_get_assign_first_other
          map_vname_assign_first)
qed

theorem VarTable_define_keeps_names_unique_witness:
  "VarTable_define [\<lparr>vname = ''x'', vvalue = Finite 1\<rparr>] ''x'' (Finite 3)
     = (Finite 3, [\<lparr>vname = ''x'', vvalue = Finite 3\<rparr>])
   \<and> VarTable_define [\<lparr>vname = ''x'', vvalue = Finite 1\<rparr>] ''y'' (Finite 3)
     = (Finite 3, [\<lparr>vname = ''x'', vvalue = Finite 1\<rparr>, \<lparr>vname = ''y'', vvalue = Finite 3\<rparr>])
   \<and> VarTable_get (snd (VarTable_define [\<lparr>vname = ''x'', vvalue = Finite 1\<rparr>] ''x'' (Finite 3))) ''x''
     = Inr (Finite 3)
   \<and> distinct (map vname (snd (VarTable_define [\<lparr>vname = ''x'', vvalue = Finite 1\<rparr>] ''y'' (Finite 3))))"
  using VarTable_define_keeps_names_unique
          [of "[\<lparr>vname = ''x'', vvalue = Finite 1\<rparr>]" "''x''" "Finite 3"]
        VarTable_define_keeps_names_unique
          [of "[\<lparr>vname = ''x'', vvalue = Finite 1\<rparr>]" "''y''" "Finite 3"]
  by (simp add: VarTable_define_def getVariable_def)

section \<open>The one-token buffer\<close>

text \<open>
  C9.  For every token \<open>t\<close>: on an empty buffer \<open>putback\<close> succeeds and stores \<open>t\<close>, and
  the next \<open>get\<close> returns exactly \<open>t\<close> and leaves the buffer empty and the input
  untouched; on a full buffer \<open>putback\<close> throws the \<open>runtime_error\<close> of the
  double fill and changes nothing, so the slot still holds the one earlier token.
\<close>

theorem putback_then_get:
  "(\<not> bufferFull ts \<longrightarrow>
      TokenStream_putback ts t = (Inr (), ts\<lparr>bufferFull := True, buffer := t\<rparr>)
      \<and> TokenStream_get (ts\<lparr>bufferFull := True, buffer := t\<rparr>)
          = (Inr t, ts\<lparr>bufferFull := False, buffer := t\<rparr>))
   \<and> (bufferFull ts \<longrightarrow>
      TokenStream_putback ts t
        = (Inl (runtime_error ''Called pushfront with the buffer already full.''), ts))"
  by (simp add: TokenStream_putback_def TokenStream_get_def)

theorem putback_then_get_witness:
  "TokenStream_putback (TokenStream_new (istringstream ''1'')) (Token_of_type ADD)
     = (Inr (), (TokenStream_new (istringstream ''1'')) \<lparr>bufferFull := True, buffer := Token_of_type ADD\<rparr>)
   \<and> TokenStream_get ((TokenStream_new (istringstream ''1'')) \<lparr>bufferFull := True, buffer := Token_of_type ADD\<rparr>)
     = (Inr (Token_of_type ADD),
        (TokenStream_new (istringstream ''1'')) \<lparr>bufferFull := False, buffer := Token_of_type ADD\<rparr>)
   \<and> TokenStream_putback
         ((TokenStream_new (istringstream ''1'')) \<lparr>bufferFull := True, buffer := Token_of_type ADD\<rparr>)
         (Token_of_type SUB)
     = (Inl (runtime_error ''Called pushfront with the buffer already full.''),
        (TokenStream_new (istringstream ''1'')) \<lparr>bufferFull := True, buffer := Token_of_type ADD\<rparr>)"
  using putback_then_get [of "TokenStream_new (istringstream ''1'')" "Token_of_type ADD"]
        putback_then_get
          [of "(TokenStream_new (istringstream ''1'')) \<lparr>bufferFull := True, buffer := Token_of_type ADD\<rparr>"
              "Token_of_type SUB"]
  by (simp add: TokenStream_new_def)

section \<open>Precedence and associativity\<close>

text \<open>
  C1.  In any variable table, \<open>6*3+2\<close> and \<open>2+6*3\<close> evaluate to 20 (the product is
  formed before the sum) and \<open>10-3-2\<close> evaluates to 5 (the differences are formed from
  the left).
\<close>

theorem precedence_and_left_associativity:
  "evaluate ''6*3+2'' vt = (Inr (Finite 20), vt)
   \<and> evaluate ''2+6*3'' vt = (Inr (Finite 20), vt)
   \<and> evaluate ''10-3-2'' vt = (Inr (Finite 5), vt)"
  by (simp add: eval_defs fsub_def)

section \<open>Several statements on one line\<close>

lemma TokenStream_get_empties_buffer:
  "TokenStream_get ts = (r, ts1) \<Longrightarrow> \<not> bufferFull ts1"
  by (auto simp: TokenStream_get_def split: if_splits prod.splits sum.splits)

lemma putback_after_get:
  "TokenStream_get ts = (r, ts1) \<Longrightarrow>
     TokenStream_putback ts1 token = (Inr (), ts1\<lparr>bufferFull := True, buffer := token\<rparr>)"
  by (simp add: TokenStream_putback_def TokenStream_get_empties_buffer)

text \<open>
  C2.  When the statement at the head of the loop of \<open>calculation\<close> returns, its value
  replaces the running result and the loop goes on in the variable table that the
  statement left: the value of a line is the value of its last statement, computed in the
  table that the earlier statements wrote.  In particular \<open>let x = 2 (x + 2) * 3\<close>
  evaluates to 12 in every table, and afterwards \<open>x\<close> is 2.
\<close>

theorem last_statement_value_earlier_effects:
  "(TokenStream_get ts = (Inr token, ts1) \<longrightarrow> kind token \<noteq> INPUT_EOF \<longrightarrow>
      statement n (ts1\<lparr>bufferFull := True, buffer := token\<rparr>) vt = (Inr r, ts3, vt3) \<longrightarrow>
      calculation_loop (Suc n) result ts vt = calculation_loop n r ts3 vt3)
   \<and> evaluate ''let x = 2 (x + 2) * 3'' vt
       = (Inr (Finite 12), snd (VarTable_define vt ''x'' (Finite 2)))
   \<and> VarTable_get (snd (evaluate ''let x = 2 (x + 2) * 3'' vt)) ''x'' = Inr (Finite 2)"
proof (intro conjI impI)
  assume "TokenStream_get ts = (Inr token, ts1)" and "kind token \<noteq> INPUT_EOF"
    and "statement n (ts1\<lparr>bufferFull := True, buffer := token\<rparr>) vt = (Inr r, ts3, vt3)"
  then show "calculation_loop (Suc n) result ts vt = calculation_loop n r ts3 vt3"
    by (simp add: putback_after_get)
next
  show e: "evaluate ''let x = 2 (x + 2) * 3'' vt
       = (Inr (Finite 12), snd (VarTable_define vt ''x'' (Finite 2)))"
    by (simp add: eval_defs VarTable_get_define)
  show "VarTable_get (snd (evaluate ''let x = 2 (x + 2) * 3'' vt)) ''x'' = Inr (Finite 2)"
    by (simp only: e snd_conv VarTable_get_define)
qed

theorem last_statement_value_earlier_effects_witness:
  "TokenStream_get (TokenStream_new (istringstream ''1 2''))
     = (Inr (Token_of_value (Finite 1)),
        \<lparr>inputStream = \<lparr>chars = '' 2'', eofbit = False, failbit = False\<rparr>,
          bufferFull = False, buffer = Token_of_type INPUT_EOF\<rparr>)
   \<and> kind (Token_of_value (Finite 1)) \<noteq> INPUT_EOF
   \<and> statement 10
         \<lparr>inputStream = \<lparr>chars = '' 2'', eofbit = False, failbit = False\<rparr>,
          bufferFull = True, buffer = Token_of_value (Finite 1)\<rparr> []
       = (Inr (Finite 1),
          \<lparr>inputStream = \<lparr>chars = [], eofbit = True, failbit = False\<rparr>,
            bufferFull = True, buffer = Token_of_value (Finite 2)\<rparr>, [])
   \<and> calculation_loop (Suc 10) (Finite 7) (TokenStream_new (istringstream ''1 2'')) []
       = calculation_loop 10 (Finite 1)
           \<lparr>inputStream = \<lparr>chars = [], eofbit = True, failbit = False\<rparr>,
             bufferFull = True, buffer = Token_of_value (Finite 2)\<rparr> []"
proof -
  have g: "TokenStream_get (TokenStream_new (istringstream ''1 2''))
     = (Inr (Token_of_value (Finite 1)),
        \<lparr>inputStream = \<lparr>chars = '' 2'', eofbit = False, failbit = False\<rparr>,
          bufferFull = False, buffer = Token_of_type INPUT_EOF\<rparr>)"
    by (simp add: TokenStream_new_def istringstream_def lex_defs)
  have k: "kind (Token_of_value (Finite 1)) \<noteq> INPUT_EOF"
    by (simp add: Token_of_value_def)
  have s: "statement 10
         (\<lparr>inputStream = \<lparr>chars = '' 2'', eofbit = False, failbit = False\<rparr>,
          bufferFull = False, buffer = Token_of_type INPUT_EOF\<rparr>
          \<lparr>bufferFull := True, buffer := Token_of_value (Finite 1)\<rparr>) []
       = (Inr (Finite 1),
          \<lparr>inputStream = \<lparr>chars = [], eofbit = True, failbit = False\<rparr>,
            bufferFull = True, buffer = Token_of_value (Finite 2)\<rparr>, [])"
    by (simp add: eval_defs)
  from last_statement_value_earlier_effects
         [where ts = "TokenStream_new (istringstream ''1 2'')" and n = 10 and vt = "[]"
            and result = "Finite 7", THEN conjunct1, rule_format, OF g k s]
       g k s
  show ?thesis by simp
qed

section \<open>Division and modulo by zero\<close>

text \<open>
  C3.  In the loop of \<open>term\<close>, after a \<open>/\<close> or a \<open>%\<close> whose right operand evaluates to a
  zero (\<open>right == 0.0\<close> holds for \<open>0.0\<close> and for \<open>-0.0\<close>), the call throws the
  \<open>runtime_error\<close> \<open>Division by zero\<close> whatever the left operand is, and no number is
  returned.  So \<open>x / 0\<close> and \<open>x % -0\<close> fail for every value of \<open>x\<close>, the infinities and
  NaN included.
\<close>

theorem division_or_modulo_by_zero:
  "(kind token = DIV \<or> kind token = MOD \<longrightarrow> primary n ts vt = (Inr right, ts1) \<longrightarrow>
      is_zero right \<longrightarrow>
      term_loop (Suc n) left token ts vt = (Inl (runtime_error ''Division by zero''), ts1))
   \<and> evaluate ''x / 0'' [\<lparr>vname = ''x'', vvalue = v\<rparr>]
       = (Inl (runtime_error ''Division by zero''), [\<lparr>vname = ''x'', vvalue = v\<rparr>])
   \<and> evaluate ''x % -0'' [\<lparr>vname = ''x'', vvalue = v\<rparr>]
       = (Inl (runtime_error ''Division by zero''), [\<lparr>vname = ''x'', vvalue = v\<rparr>])"
proof (intro conjI impI)
  assume "kind token = DIV \<or> kind token = MOD" and "primary n ts vt = (Inr right, ts1)"
    and "is_zero right"
  then show "term_loop (Suc n) left token ts vt = (Inl (runtime_error ''Division by zero''), ts1)"
    by (auto simp: throw_def)
next
  show "evaluate ''x / 0'' [\<lparr>vname = ''x'', vvalue = v\<rparr>]
       = (Inl (runtime_error ''Division by zero''), [\<lparr>vname = ''x'', vvalue = v\<rparr>])"
    by (simp add: eval_defs)
  show "evaluate ''x % -0'' [\<lparr>vname = ''x'', vvalue = v\<rparr>]
       = (Inl (runtime_error ''Division by zero''), [\<lparr>vname = ''x'', vvalue = v\<rparr>])"
    by (simp add: eval_defs)
qed

theorem division_or_modulo_by_zero_witness:
  "primary 1 (TokenStream_new (istringstream ''0'')) []
     = (Inr (Finite 0),
        \<lparr>inputStream = \<lparr>chars = [], eofbit = True, failbit = False\<rparr>,
          bufferFull = False, buffer = Token_of_type INPUT_EOF\<rparr>)
   \<and> is_zero (Finite 0)
   \<and> term_loop (Suc 1) NaN (Token_of_type DIV) (TokenStream_new (istringstream ''0'')) []
       = (Inl (runtime_error ''Division by zero''),
          \<lparr>inputStream = \<lparr>chars = [], eofbit = True, failbit = False\<rparr>,
            bufferFull = False, buffer = Token_of_type INPUT_EOF\<rparr>)
   \<and> term_loop (Suc 1) (Finite 7) (Token_of_type MOD) (TokenStream_new (istringstream ''0'')) []
       = (Inl (runtime_error ''Division by zero''),
          \<lparr>inputStream = \<lparr>chars = [], eofbit = True, failbit = False\<rparr>,
            bufferFull = False, buffer = Token_of_type INPUT_EOF\<rparr>)"
proof -
  have p: "primary 1 (TokenStream_new (istringstream ''0'')) []
     = (Inr (Finite 0),
        \<lparr>inputStream = \<lparr>chars = [], eofbit = True, failbit = False\<rparr>,
          bufferFull = False, buffer = Token_of_type INPUT_EOF\<rparr>)"
    by (simp add: TokenStream_new_def istringstream_def lex_defs)
  have z: "is_zero (Finite 0)" by simp
  have d: "kind (Token_of_type DIV) = DIV \<or> kind (Token_of_type DIV) = MOD"
    and m: "kind (Token_of_type MOD) = DIV \<or> kind (Token_of_type MOD) = MOD"
    by (simp_all add: Token_of_type_def)
  from division_or_modulo_by_zero [where left = NaN, THEN conjunct1, rule_format, OF d p z]
       division_or_modulo_by_zero [where left = "Finite 7", THEN conjunct1, rule_format, OF m p z]
       p z
  show ?thesis by simp
qed

section \<open>The sign of the remainder\<close>

text \<open>
  C4.  The remainder has the sign of the dividend: \<open>8%3\<close> is 2, \<open>-8%3\<close> is \<open>-2\<close>,
  \<open>8%-3\<close> is 2 and \<open>-8%-3\<close> is \<open>-2\<close>, each of them exactly.
\<close>

theorem modulo_sign_of_dividend:
  "evaluate ''8%3'' vt = (Inr (Finite 2), vt)
   \<and> evaluate ''-8%3'' vt = (Inr (Finite (- 2)), vt)
   \<and> evaluate ''8%-3'' vt = (Inr (Finite 2), vt)
   \<and> evaluate ''-8%-3'' vt = (Inr (Finite (- 2)), vt)"
  by (simp add: eval_defs trunc_numeral_div)

section \<open>Skipping tokens\<close>

text \<open>
  C5.  On the input \<open>1 + 2\<close> with an empty buffer, \<open>ignore(ADD)\<close> does not stop at the
  \<open>+\<close>: its loop compares each token with the end of input only, so it reads the whole
  line, the \<open>2\<close> after the \<open>+\<close> included, and the next \<open>get\<close> returns the end of input.
\<close>

theorem ignore_reads_to_end_of_input:
  "TokenStream_ignore (TokenStream_new (istringstream ''1 + 2'')) ADD
     = Some (Inr (), \<lparr>inputStream = \<lparr>chars = [], eofbit = True, failbit = True\<rparr>,
                bufferFull = False, buffer = Token_of_type INPUT_EOF\<rparr>)
   \<and> fst (TokenStream_get \<lparr>inputStream = \<lparr>chars = [], eofbit = True, failbit = True\<rparr>,
                bufferFull = False, buffer = Token_of_type INPUT_EOF\<rparr>)
       = Inr (Token_of_type INPUT_EOF)"
  by (simp add: TokenStream_ignore_def TokenStream_new_def istringstream_def
        skip_to_eof.simps lex_defs)

section \<open>Failures\<close>

lemma VarTable_get_absent:
  "nm \<notin> vname ` set vt \<Longrightarrow>
     VarTable_get vt nm = Inl (runtime_error (''Undefined variable '' @ [CHR 0x27] @ nm @ [CHR 0x27]))"
  by (induction vt) auto

text \<open>
  C6.  A failure ends \<open>calculation\<close> at once, with that failure and with the variable
  table as the statements completed before had left it.  At the head of any iteration
  of the loop, with the table \<open>vt\<close> that the earlier statements have produced: when
  reading the first token of the next statement fails, the call ends with that failure
  and \<open>vt\<close>; when the next statement fails, it has not written to the table, and the call
  ends with its failure and \<open>vt\<close>; no further statement is evaluated.  So in
  \<open>let x = 1 let y = x / 0 let z = 3\<close> the first declaration stays, the second fails, and
  the third is not reached.
\<close>

theorem failure_aborts_calculation_keeps_store:
  "(TokenStream_get ts = (Inl e, ts1) \<longrightarrow>
      calculation_loop (Suc n) result ts vt = (Inl e, ts1, vt))
   \<and> (TokenStream_get ts = (Inr token, ts1) \<longrightarrow> kind token \<noteq> INPUT_EOF \<longrightarrow>
      statement n (ts1\<lparr>bufferFull := True, buffer := token\<rparr>) vt = (Inl e, ts3, vt3) \<longrightarrow>
      vt3 = vt \<and> calculation_loop (Suc n) result ts vt = (Inl e, ts3, vt))
   \<and> evaluate ''let x = 1 let y = x / 0 let z = 3'' vt
       = (Inl (runtime_error ''Division by zero''), snd (VarTable_define vt ''x'' (Finite 1)))"
proof (intro conjI impI)
  assume "TokenStream_get ts = (Inl e, ts1)"
  then show "calculation_loop (Suc n) result ts vt = (Inl e, ts1, vt)" by simp
next
  assume g: "TokenStream_get ts = (Inr token, ts1)" and k: "kind token \<noteq> INPUT_EOF"
    and s: "statement n (ts1\<lparr>bufferFull := True, buffer := token\<rparr>) vt = (Inl e, ts3, vt3)"
  from s show v: "vt3 = vt" by (rule statement_failure_keeps_store)
  from g k s v show "calculation_loop (Suc n) result ts vt = (Inl e, ts3, vt)"
    by (simp add: putback_after_get)
next
  show "evaluate ''let x = 1 let y = x / 0 let z = 3'' vt
       = (Inl (runtime_error ''Division by zero''), snd (VarTable_define vt ''x'' (Finite 1)))"
    by (simp add: eval_defs VarTable_get_define)
qed

theorem failure_aborts_calculation_keeps_store_witness:
  "TokenStream_get (TokenStream_new (istringstream ''$''))
     = (Inl (runtime_error ''Unexpected token.''),
        \<lparr>inputStream = \<lparr>chars = [], eofbit = False, failbit = False\<rparr>,
          bufferFull = False, buffer = Token_of_type INPUT_EOF\<rparr>)
   \<and> calculation_loop (Suc 0) (Finite 0) (TokenStream_new (istringstream ''$''))
         [\<lparr>vname = ''x'', vvalue = Finite 1\<rparr>]
       = (Inl (runtime_error ''Unexpected token.''),
          \<lparr>inputStream = \<lparr>chars = [], eofbit = False, failbit = False\<rparr>,
            bufferFull = False, buffer = Token_of_type INPUT_EOF\<rparr>,
          [\<lparr>vname = ''x'', vvalue = Finite 1\<rparr>])
   \<and> TokenStream_get (TokenStream_new (istringstream ''let y = x / 0 let z = 3''))
     = (Inr (Token_of_type KW_LET),
        \<lparr>inputStream = \<lparr>chars = '' y = x / 0 let z = 3'', eofbit = False, failbit = False\<rparr>,
          bufferFull = False, buffer = Token_of_type INPUT_EOF\<rparr>)
   \<and> kind (Token_of_type KW_LET) \<noteq> INPUT_EOF
   \<and> statement 20
        \<lparr>inputStream = \<lparr>chars = '' y = x / 0 let z = 3'', eofbit = False, failbit = False\<rparr>,
          bufferFull = True, buffer = Token_of_type KW_LET\<rparr>
        [\<lparr>vname = ''x'', vvalue = Finite 1\<rparr>]
     = (Inl (runtime_error ''Division by zero''),
        \<lparr>inputStream = \<lparr>chars = '' let z = 3'', eofbit = False, failbit = False\<rparr>,
          bufferFull = False, buffer = Token_of_type KW_LET\<rparr>,
        [\<lparr>vname = ''x'', vvalue = Finite 1\<rparr>])
   \<and> calculation_loop (Suc 20) (Finite 1)
        (TokenStream_new (istringstream ''let y = x / 0 let z = 3''))
        [\<lparr>vname = ''x'', vvalue = Finite 1\<rparr>]
     = (Inl (runtime_error ''Division by zero''),
        \<lparr>inputStream = \<lparr>chars = '' let z = 3'', eofbit = False, failbit = False\<rparr>,
          bufferFull = False, buffer = Token_of_type KW_LET\<rparr>,
        [\<lparr>vname = ''x'', vvalue = Finite 1\<rparr>])"
proof -
  have g1: "TokenStream_get (TokenStream_new (istringstream ''$''))
     = (Inl (runtime_error ''Unexpected token.''),
        \<lparr>inputStream = \<lparr>chars = [], eofbit = False, failbit = False\<rparr>,
          bufferFull = False, buffer = Token_of_type INPUT_EOF\<rparr>)"
    by (simp add: TokenStream_new_def istringstream_def lex_defs)
  have g2: "TokenStream_get (TokenStream_new (istringstream ''let y = x / 0 let z = 3''))
     = (Inr (Token_of_type KW_LET),
        \<lparr>inputStream = \<lparr>chars = '' y = x / 0 let z = 3'', eofbit = False, failbit = False\<rparr>,
          bufferFull = False, buffer = Token_of_type INPUT_EOF\<rparr>)"
    by (simp add: TokenStream_new_def istringstream_def lex_defs)
  have k: "kind (Token_of_type KW_LET) \<noteq> INPUT_EOF"
    by (simp add: Token_of_type_def)
  have s: "statement 20
        (\<lparr>inputStream = \<lparr>chars = '' y = x / 0 let z = 3'', eofbit = False, failbit = False\<rparr>,
          bufferFull = False, buffer = Token_of_type INPUT_EOF\<rparr>
          \<lparr>bufferFull := True, buffer := Token_of_type KW_LET\<rparr>)
        [\<lparr>vname = ''x'', vvalue = Finite 1\<rparr>]
     = (Inl (runtime_error ''Division by zero''),
        \<lparr>inputStream = \<lparr>chars = '' let z = 3'', eofbit = False, failbit = False\<rparr>,
          bufferFull = False, buffer = Token_of_type KW_LET\<rparr>,
        [\<lparr>vname = ''x'', vvalue = Finite 1\<rparr>])"
    by (simp add: eval_defs)
  from failure_aborts_calculation_keeps_store
         [where n = 0 and result = "Finite 0" and vt = "[\<lparr>vname = ''x'', vvalue = Finite 1\<rparr>]",
          THEN conjunct1, rule_format, OF g1]
       failure_aborts_calculation_keeps_store
         [where n = 20 and result = "Finite 1", THEN conjunct2, THEN conjunct1, rule_format,
          OF g2 k s]
       g1 g2 k s
  show ?thesis by simp
qed

text \<open>
  C7.  When \<open>primary\<close> reads a name that the variable table does not hold, it throws the
  \<open>runtime_error\<close> \<open>Undefined variable '<name>'\<close>; a statement that fails leaves the
  table as it was; and a line such as \<open>1 + y * 2\<close>, in any table without \<open>y\<close>, fails with
  that error and returns the table unchanged.
\<close>

theorem undefined_variable_fails_store_unchanged:
  "(TokenStream_get ts = (Inr token, ts1) \<longrightarrow> kind token = NAME \<longrightarrow>
      tname token \<notin> vname ` set vt \<longrightarrow>
      primary (Suc n) ts vt
        = (Inl (runtime_error (''Undefined variable '' @ [CHR 0x27] @ tname token @ [CHR 0x27])),
           ts1))
   \<and> (statement n ts vt = (Inl e, ts', vt') \<longrightarrow> vt' = vt)
   \<and> (''y'' \<notin> vname ` set vt \<longrightarrow>
        evaluate ''1 + y * 2'' vt
          = (Inl (runtime_error (''Undefined variable '' @ [CHR 0x27] @ ''y'' @ [CHR 0x27])), vt))"
proof (intro conjI impI)
  assume "TokenStream_get ts = (Inr token, ts1)" and "kind token = NAME"
    and "tname token \<notin> vname ` set vt"
  then show "primary (Suc n) ts vt
        = (Inl (runtime_error (''Undefined variable '' @ [CHR 0x27] @ tname token @ [CHR 0x27])),
           ts1)"
    by (simp add: VarTable_get_absent)
next
  assume "statement n ts vt = (Inl e, ts', vt')"
  then show "vt' = vt" by (rule statement_failure_keeps_store)
next
  assume "''y'' \<notin> vname ` set vt"
  then have "VarTable_get vt ''y''
      = Inl (runtime_error (''Undefined variable '' @ [CHR 0x27] @ ''y'' @ [CHR 0x27]))"
    by (rule VarTable_get_absent)
  then show "evaluate ''1 + y * 2'' vt
          = (Inl (runtime_error (''Undefined variable '' @ [CHR 0x27] @ ''y'' @ [CHR 0x27])), vt)"
    by (simp add: eval_defs)
qed

theorem undefined_variable_fails_store_unchanged_witness:
  "TokenStream_get (TokenStream_new (istringstream ''y''))
     = (Inr (Token_of_name ''y''),
        \<lparr>inputStream = \<lparr>chars = [], eofbit = True, failbit = True\<rparr>,
          bufferFull = False, buffer = Token_of_type INPUT_EOF\<rparr>)
   \<and> primary (Suc 0) (TokenStream_new (istringstream ''y'')) [\<lparr>vname = ''x'', vvalue = Finite 1\<rparr>]
       = (Inl (runtime_error (''Undefined variable '' @ [CHR 0x27] @ ''y'' @ [CHR 0x27])),
          \<lparr>inputStream = \<lparr>chars = [], eofbit = True, failbit = True\<rparr>,
            bufferFull = False, buffer = Token_of_type INPUT_EOF\<rparr>)
   \<and> statement 10 (TokenStream_new (istringstream ''y'')) [\<lparr>vname = ''x'', vvalue = Finite 1\<rparr>]
       = (Inl (runtime_error (''Undefined variable '' @ [CHR 0x27] @ ''y'' @ [CHR 0x27])),
          \<lparr>inputStream = \<lparr>chars = [], eofbit = True, failbit = True\<rparr>,
            bufferFull = False, buffer = Token_of_name ''y''\<rparr>,
          [\<lparr>vname = ''x'', vvalue = Finite 1\<rparr>])
   \<and> evaluate ''1 + y * 2'' [\<lparr>vname = ''x'', vvalue = Finite 1\<rparr>]
       = (Inl (runtime_error (''Undefined variable '' @ [CHR 0x27] @ ''y'' @ [CHR 0x27])),
          [\<lparr>vname = ''x'', vvalue = Finite 1\<rparr>])"
proof -
  have g: "TokenStream_get (TokenStream_new (istringstream ''y''))
     = (Inr (Token_of_name ''y''),
        \<lparr>inputStream = \<lparr>chars = [], eofbit = True, failbit = True\<rparr>,
          bufferFull = False, buffer = Token_of_type INPUT_EOF\<rparr>)"
    by (simp add: TokenStream_new_def istringstream_def lex_defs)
  have k: "kind (Token_of_name ''y'') = NAME"
    and a: "tname (Token_of_name ''y'') \<notin> vname ` set [\<lparr>vname = ''x'', vvalue = Finite 1\<rparr>]"
    and a': "''y'' \<notin> vname ` set [\<lparr>vname = ''x'', vvalue = Finite 1\<rparr>]"
    by (simp_all add: Token_of_name_def)
  have s: "statement 10 (TokenStream_new (istringstream ''y'')) [\<lparr>vname = ''x'', vvalue = Finite 1\<rparr>]
       = (Inl (runtime_error (''Undefined variable '' @ [CHR 0x27] @ ''y'' @ [CHR 0x27])),
          \<lparr>inputStream = \<lparr>chars = [], eofbit = True, failbit = True\<rparr>,
            bufferFull = False, buffer = Token_of_name ''y''\<rparr>,
          [\<lparr>vname = ''x'', vvalue = Finite 1\<rparr>])"
    by (simp add: eval_defs)
  from undefined_variable_fails_store_unchanged
         [where n = 0, THEN conjunct1, rule_format, OF g k a]
       undefined_variable_fails_store_unchanged
         [THEN conjunct2, THEN conjunct1, rule_format, OF s]
       undefined_variable_fails_store_unchanged
         [THEN conjunct2, THEN conjunct2, rule_format, OF a']
       g s
  show ?thesis by (simp add: Token_of_name_def)
qed

section \<open>The empty line\<close>

text \<open>
  C10.  When the first token that \<open>calculation\<close> obtains is the end of input, it returns
  the initial \<open>result\<close>, 0.0, and the variable table as it was.  So a line of white space
  only, the empty line included, evaluates to 0.0 and changes nothing.
\<close>

theorem empty_input_evaluates_to_zero:
  "(TokenStream_get ts = (Inr token, ts1) \<longrightarrow> kind token = INPUT_EOF \<longrightarrow>
      calculation (Suc n) ts vt = (Inr (Finite 0), ts1, vt))
   \<and> ((\<forall>c\<in>set input. isspace c) \<longrightarrow> evaluate input vt = (Inr (Finite 0), vt))"
proof (intro conjI impI)
  assume "TokenStream_get ts = (Inr token, ts1)" and "kind token = INPUT_EOF"
  then show "calculation (Suc n) ts vt = (Inr (Finite 0), ts1, vt)"
    by (simp add: calculation_def)
next
  assume "\<forall>c\<in>set input. isspace c"
  then have d: "dropWhile isspace input = []" by simp
  have g: "TokenStream_get (TokenStream_new (istringstream input))
      = (Inr (Token_of_type INPUT_EOF),
         (TokenStream_new (istringstream input))
           \<lparr>inputStream := \<lparr>chars = [], eofbit = True, failbit = True\<rparr>\<rparr>)"
    by (simp add: TokenStream_get_def TokenStream_new_def istringstream_def doReadNextToken_def
          extract_char_def good_def Token_of_type_def d)
  have c: "calculation_loop (Suc m) (Finite 0) (TokenStream_new (istringstream input)) vt
      = (Inr (Finite 0),
         (TokenStream_new (istringstream input))
           \<lparr>inputStream := \<lparr>chars = [], eofbit = True, failbit = True\<rparr>\<rparr>, vt)" for m
    by (simp add: g) (simp add: Token_of_type_def)
  have f: "fuel_of (TokenStream_new (istringstream input)) = Suc (5 * length input + 10)"
    by (simp add: fuel_of_def TokenStream_new_def istringstream_def)
  show "evaluate input vt = (Inr (Finite 0), vt)"
    unfolding evaluate_def calculation_def Let_def f c by simp
qed

theorem empty_input_evaluates_to_zero_witness:
  "TokenStream_get (TokenStream_new (istringstream []))
     = (Inr (Token_of_type INPUT_EOF),
        \<lparr>inputStream = \<lparr>chars = [], eofbit = True, failbit = True\<rparr>,
          bufferFull = False, buffer = Token_of_type INPUT_EOF\<rparr>)
   \<and> calculation (Suc 0) (TokenStream_new (istringstream [])) [\<lparr>vname = ''x'', vvalue = Finite 1\<rparr>]
       = (Inr (Finite 0),
          \<lparr>inputStream = \<lparr>chars = [], eofbit = True, failbit = True\<rparr>,
            bufferFull = False, buffer = Token_of_type INPUT_EOF\<rparr>,
          [\<lparr>vname = ''x'', vvalue = Finite 1\<rparr>])
   \<and> isspace (CHR '' '') \<and> isspace (CHR 0x09)
   \<and> evaluate [CHR '' '', CHR 0x09, CHR '' ''] [\<lparr>vname = ''x'', vvalue = Finite 1\<rparr>]
       = (Inr (Finite 0), [\<lparr>vname = ''x'', vvalue = Finite 1\<rparr>])"
proof -
  have g: "TokenStream_get (TokenStream_new (istringstream []))
     = (Inr (Token_of_type INPUT_EOF),
        \<lparr>inputStream = \<lparr>chars = [], eofbit = True, failbit = True\<rparr>,
          bufferFull = False, buffer = Token_of_type INPUT_EOF\<rparr>)"
    by (simp add: TokenStream_new_def istringstream_def lex_defs)
  have k: "kind (Token_of_type INPUT_EOF) = INPUT_EOF"
    by (simp add: Token_of_type_def)
  have w: "\<forall>c\<in>set [CHR '' '', CHR 0x09, CHR '' '']. isspace c"
    by (simp add: isspace_def)
  from empty_input_evaluates_to_zero [where n = 0, THEN conjunct1, rule_format, OF g k]
       empty_input_evaluates_to_zero [THEN conjunct2, THEN mp, OF w]
       g w
  show ?thesis by (simp add: isspace_def)
qed

end
